theory Spec2Isabelle
  imports Complex_Main "HOL-Library.Word"
begin


section \<open>The hybrid slicer of geminiService\<close>

subsection \<open>Canvases and image data\<close>

text \<open>
  A canvas is a bitmap of RGBA pixels that the code reaches only through \<open>getImageData\<close>
  and \<open>drawImage\<close>. The array \<open>ImageData.data\<close> is a flat list of bytes, four per pixel,
  row by row. A pixel outside the bitmap reads as transparent black, and \<open>getImageData\<close>
  throws when the width or the height of the rectangle is zero, which is the value \<open>None\<close>.
\<close>

type_synonym byte = "8 word"

record canvas =
  cwidth :: nat
  cheight :: nat
  cpixel :: "nat \<Rightarrow> nat \<Rightarrow> byte \<times> byte \<times> byte \<times> byte"

definition pixelAt :: "canvas \<Rightarrow> int \<Rightarrow> int \<Rightarrow> byte list" where
  "pixelAt c x y =
     (if 0 \<le> x \<and> x < int (cwidth c) \<and> 0 \<le> y \<and> y < int (cheight c)
      then (case cpixel c (nat x) (nat y) of (r, g, b, a) \<Rightarrow> [r, g, b, a])
      else [0, 0, 0, 0])"

definition getImageData :: "canvas \<Rightarrow> int \<Rightarrow> int \<Rightarrow> nat \<Rightarrow> nat \<Rightarrow> byte list option" where
  "getImageData c sx sy sw sh =
     (if sw = 0 \<or> sh = 0 then None
      else Some (concat (map (\<lambda>j. concat (map (\<lambda>i. pixelAt c (sx + int i) (sy + int j)) [0..<sw]))
                             [0..<sh])))"

subsection \<open>Numbers\<close>

text \<open>
  The scores are JavaScript numbers. They are modelled by exact rationals, without the
  rounding of doubles, together with \<open>NaN\<close>, which is what arithmetic on an element read
  outside the array (\<open>undefined\<close>) and the division \<open>0 / 0\<close> give. Where two scores
  are equal or a brightness meets a threshold only up to rounding, the code can choose
  another row than the one computed here; the statements below about a chosen row are made
  at inputs where every operation is exact in doubles. Every comparison with
  \<open>NaN\<close> is false. A division by zero of a number other than 0 does not occur in this code:
  the only divisor that can be 0 is \<open>count\<close>, and then both sums are 0 (half the height
  of a zone is positive wherever a row is scored).
\<close>

datatype number = Num rat | NaN

fun nadd :: "number \<Rightarrow> number \<Rightarrow> number" where
  "nadd (Num a) (Num b) = Num (a + b)"
| "nadd a b = NaN"

fun nsub :: "number \<Rightarrow> number \<Rightarrow> number" where
  "nsub (Num a) (Num b) = Num (a - b)"
| "nsub a b = NaN"

fun nmul :: "number \<Rightarrow> number \<Rightarrow> number" where
  "nmul (Num a) (Num b) = Num (a * b)"
| "nmul a b = NaN"

fun ndiv :: "number \<Rightarrow> number \<Rightarrow> number" where
  "ndiv (Num a) (Num b) = (if b = 0 then NaN else Num (a / b))"
| "ndiv a b = NaN"

fun nabs :: "number \<Rightarrow> number" where
  "nabs (Num a) = Num \<bar>a\<bar>"
| "nabs NaN = NaN"

fun nless :: "number \<Rightarrow> number \<Rightarrow> bool" where
  "nless (Num a) (Num b) = (a < b)"
| "nless a b = False"

text \<open>An element of the data array, as a number.\<close>

definition rd :: "byte list \<Rightarrow> nat \<Rightarrow> number" where
  "rd data i = (if i < length data then Num (of_nat (unat (data ! i))) else NaN)"

subsection \<open>\<open>calculateRowEnergy\<close>\<close>

function rowLoop :: "byte list \<Rightarrow> nat \<Rightarrow> nat \<Rightarrow> nat \<Rightarrow> number \<times> number \<Rightarrow> number \<times> number" where
  "rowLoop data width rowOffset x (diffSum, brightnessSum) =
     (if int x < int width - 2 then
        let i = rowOffset + x * 4;
            nextI = rowOffset + (x + 2) * 4;
            brightnessSum' =
              nadd brightnessSum
                (ndiv (nadd (nadd (rd data i) (rd data (i + 1))) (rd data (i + 2))) (Num 3));
            dR = nabs (nsub (rd data i) (rd data nextI));
            dG = nabs (nsub (rd data (i + 1)) (rd data (nextI + 1)));
            dB = nabs (nsub (rd data (i + 2)) (rd data (nextI + 2)));
            diffSum' = nadd diffSum (nadd (nadd dR dG) dB)
        in rowLoop data width rowOffset (x + 2) (diffSum', brightnessSum')
      else (diffSum, brightnessSum))"
  by pat_completeness auto
termination
  by (relation "measure (\<lambda>(data, width, rowOffset, x, acc). width - x)") auto

declare rowLoop.simps [simp del]

text \<open>The result is the pair of \<open>energy\<close> and \<open>brightness\<close>.\<close>

definition calculateRowEnergy :: "byte list \<Rightarrow> nat \<Rightarrow> nat \<Rightarrow> number \<times> number" where
  "calculateRowEnergy data width y =
     (let rowOffset = y * width * 4;
          (diffSum, brightnessSum) = rowLoop data width rowOffset 0 (Num 0, Num 0);
          count = Num (of_int \<lceil>(of_nat width :: rat) / 2\<rceil>)
      in (ndiv diffSum count, ndiv brightnessSum count))"

subsection \<open>\<open>findExactCutInZone\<close>\<close>

text \<open>
  The variable \<open>minEnergy\<close> starts at \<open>Infinity\<close> and is only ever compared with a score and
  overwritten by one.
\<close>

datatype bound = Infinity | Finite rat

fun below :: "number \<Rightarrow> bound \<Rightarrow> bool" where
  "below (Num a) Infinity = True"
| "below (Num a) (Finite b) = (a < b)"
| "below NaN m = False"

definition rowScore :: "byte list \<Rightarrow> nat \<Rightarrow> nat \<Rightarrow> nat \<Rightarrow> number" where
  "rowScore data width height y =
     (let (energy, brightness) = calculateRowEnergy data width y;
          score = energy;
          score = (if nless (Num 240) brightness \<or> nless brightness (Num 20)
                   then nsub score (Num 30) else score);
          distFromCenter =
            ndiv (nabs (nsub (Num (of_nat y)) (ndiv (Num (of_nat height)) (Num 2))))
                 (ndiv (Num (of_nat height)) (Num 2))
      in nadd score (nmul distFromCenter (Num (1 / 2))))"

definition scanRow :: "byte list \<Rightarrow> nat \<Rightarrow> nat \<Rightarrow> int \<times> bound \<Rightarrow> nat \<Rightarrow> int \<times> bound" where
  "scanRow data width height best y =
     (case rowScore data width height y of
        Num score \<Rightarrow> (if below (Num score) (snd best) then (int y, Finite score) else best)
      | NaN \<Rightarrow> best)"

definition findExactCutInZone :: "canvas \<Rightarrow> nat \<Rightarrow> int \<Rightarrow> int \<Rightarrow> int option" where
  "findExactCutInZone ctx width startY endY =
     (if startY \<ge> endY then Some startY
      else
        let height = nat (endY - startY)
        in case getImageData ctx 0 startY width height of
             None \<Rightarrow> None
           | Some data \<Rightarrow>
               let (bestY, minEnergy) = foldl (scanRow data width height) (- 1, Infinity) [0..<height]
               in Some (startY + bestY))"


subsection \<open>Safe zones\<close>

text \<open>
  The hints are whatever \<open>JSON.parse\<close> returns for the reply of the model: nothing bounds
  the two fractions or orders them. The products with the image height are taken exactly,
  where the code takes \<open>Math.floor\<close> of the rounded product of doubles: for a fraction that
  is not a binary fraction the row computed here can differ by one from the row of the code.
\<close>

record zone =
  start_percent :: rat
  end_percent :: rat
  zone_type :: string

definition TARGET_CHUNK_HEIGHT :: int where
  "TARGET_CHUNK_HEIGHT = 2500"

definition zoneMid :: "zone \<Rightarrow> int \<Rightarrow> rat" where
  "zoneMid z imgHeight = (start_percent z + end_percent z) / 2 * of_int imgHeight"

definition closerZone :: "int \<Rightarrow> int \<Rightarrow> zone \<Rightarrow> zone \<Rightarrow> zone" where
  "closerZone imgHeight desiredCutY prevZone currZone =
     (let prevMid = zoneMid prevZone imgHeight;
          currMid = zoneMid currZone imgHeight;
          prevDist = \<bar>prevMid - of_int desiredCutY\<bar>;
          currDist = \<bar>currMid - of_int desiredCutY\<bar>
      in if currDist < prevDist then currZone else prevZone)"

subsection \<open>One iteration of the slicing loop\<close>

text \<open>
  \<open>selectCut\<close> is the body of the loop between the test of \<open>desiredCutY\<close> and the
  monotonicity guard: the cut taken from the best zone, or the cut of the fallback window
  when no zone was used (\<open>cutY\<close> still -1). \<open>reduce\<close> without an initial value starts
  from the first element.
\<close>

definition zoneCut :: "canvas \<Rightarrow> zone list \<Rightarrow> int \<Rightarrow> int option" where
  "zoneCut ctx zones currentY =
     (let imgHeight = int (cheight ctx);
          desiredCutY = currentY + TARGET_CHUNK_HEIGHT;
          validZones = filter (\<lambda>z. zoneMid z imgHeight > of_int (currentY + 100)) zones
      in if length validZones > 0 then
           let bestZone = foldl (closerZone imgHeight desiredCutY) (hd validZones) (tl validZones);
               zMid = zoneMid bestZone imgHeight
           in if \<bar>zMid - of_int desiredCutY\<bar> < 1800 then
                let zStartPx = \<lfloor>start_percent bestZone * of_int imgHeight\<rfloor>;
                    zEndPx = \<lfloor>end_percent bestZone * of_int imgHeight\<rfloor>
                in findExactCutInZone ctx (cwidth ctx) zStartPx zEndPx
              else Some (- 1)
         else Some (- 1))"

definition selectCut :: "canvas \<Rightarrow> zone list \<Rightarrow> int \<Rightarrow> int option" where
  "selectCut ctx zones currentY =
     (let imgHeight = int (cheight ctx);
          desiredCutY = currentY + TARGET_CHUNK_HEIGHT
      in case zoneCut ctx zones currentY of
           None \<Rightarrow> None
         | Some cutY \<Rightarrow>
             if cutY = - 1 then
               let searchStart = max (currentY + 100) (desiredCutY - 300);
                   searchEnd = min (imgHeight - 10) (desiredCutY + 300)
               in findExactCutInZone ctx (cwidth ctx) searchStart searchEnd
             else Some cutY)"

subsection \<open>The slicing loop\<close>

text \<open>
  The loop of \<open>splitLongImage\<close>, from \<open>currentY\<close> and the split points pushed so far. The
  result is \<open>None\<close> when \<open>getImageData\<close> throws.
\<close>

function sliceLoop :: "canvas \<Rightarrow> zone list \<Rightarrow> int \<Rightarrow> int list \<Rightarrow> int list option" where
  "sliceLoop ctx zones currentY splitPoints =
     (if currentY < int (cheight ctx) then
        let desiredCutY = currentY + TARGET_CHUNK_HEIGHT
        in if desiredCutY \<ge> int (cheight ctx) then Some splitPoints
           else
             case selectCut ctx zones currentY of
               None \<Rightarrow> None
             | Some cutY0 \<Rightarrow>
                 let cutY = (if cutY0 \<le> currentY then currentY + TARGET_CHUNK_HEIGHT else cutY0)
                 in sliceLoop ctx zones cutY (splitPoints @ [cutY])
      else Some splitPoints)"
  by pat_completeness auto
termination
  by (relation "measure (\<lambda>(ctx, zones, currentY, splitPoints). nat (int (cheight ctx) - currentY))")
     (auto simp: TARGET_CHUNK_HEIGHT_def)

declare sliceLoop.simps [simp del]

text \<open>
  The finalized cut points: the image height is pushed last, duplicates are removed and the
  points are sorted by value.
\<close>

definition uniquePoints :: "canvas \<Rightarrow> zone list \<Rightarrow> int list option" where
  "uniquePoints ctx zones =
     (case sliceLoop ctx zones 0 [0] of
        None \<Rightarrow> None
      | Some splitPoints \<Rightarrow> Some (sort (remdups (splitPoints @ [int (cheight ctx)]))))"

subsection \<open>The chunks\<close>

text \<open>
  \<open>drawImage\<close> copies the source rectangle of rows \<open>y1\<close> to \<open>y1 + h\<close> into a fresh canvas
  of height \<open>h\<close>; the part of the rectangle outside the source stays transparent. A chunk is
  the content of its canvas, before \<open>toBlob\<close> encodes it, with the number \<open>i + 1\<close> of its
  file name.
\<close>

definition drawImage :: "canvas \<Rightarrow> int \<Rightarrow> nat \<Rightarrow> canvas" where
  "drawImage source y1 h =
     \<lparr>cwidth = cwidth source, cheight = h,
      cpixel = (\<lambda>x y. if y1 + int y < int (cheight source) \<and> 0 \<le> y1 + int y \<and> x < cwidth source
                      then cpixel source x (nat (y1 + int y))
                      else (0, 0, 0, 0))\<rparr>"

record chunk =
  part :: nat
  content :: canvas

definition chunkAt :: "canvas \<Rightarrow> int list \<Rightarrow> nat \<Rightarrow> chunk list" where
  "chunkAt source points i =
     (let y1 = points ! i;
          y2 = points ! (i + 1);
          h = y2 - y1
      in if h < 100 then []
         else [\<lparr>part = i + 1, content = drawImage source y1 (nat h)\<rparr>])"

definition generateChunks :: "canvas \<Rightarrow> int list \<Rightarrow> chunk list" where
  "generateChunks source points = concat (map (chunkAt source points) [0..<length points - 1])"

text \<open>
  \<open>splitLongImage\<close>: an image of height at most 1.2 times the target is returned as it is
  (\<open>Whole\<close>); otherwise the chunks are cut. \<open>Failed\<close> is an exception of \<open>getImageData\<close>.
\<close>

datatype split_result = Whole | Chunks "chunk list" | Failed

definition splitLongImage :: "canvas \<Rightarrow> zone list \<Rightarrow> split_result" where
  "splitLongImage img zones =
     (if (of_nat (cheight img) :: rat) \<le> of_int TARGET_CHUNK_HEIGHT * (12 / 10) then Whole
      else case uniquePoints img zones of
             None \<Rightarrow> Failed
           | Some points \<Rightarrow> Chunks (generateChunks img points))"

text \<open>All the bytes of a canvas, row by row, and the stacking of images by height.\<close>

definition canvasBytes :: "canvas \<Rightarrow> byte list" where
  "canvasBytes c =
     concat (map (\<lambda>j. concat (map (\<lambda>i. pixelAt c (int i) (int j)) [0..<cwidth c])) [0..<cheight c])"

definition stacked :: "canvas list \<Rightarrow> byte list" where
  "stacked cs = concat (map canvasBytes cs)"

subsection \<open>Example images and hints\<close>

text \<open>
  The fractions of the example zones are binary fractions, and the heights of the example
  images are chosen so that every product of a fraction and a height is a whole number: on
  these inputs doubles compute the same rows as the exact arithmetic used here.
\<close>

definition plainCanvas :: "nat \<Rightarrow> nat \<Rightarrow> byte \<Rightarrow> canvas" where
  "plainCanvas w h v = \<lparr>cwidth = w, cheight = h, cpixel = (\<lambda>x y. (v, v, v, 255))\<rparr>"

definition rowPixels :: "(nat \<times> nat \<times> nat) list \<Rightarrow> byte list" where
  "rowPixels ps = concat (map (\<lambda>(r, g, b). [of_nat r, of_nat g, of_nat b, 255]) ps)"

definition zoneBelowImage :: zone where
  "zoneBelowImage = \<lparr>start_percent = 33 / 32, end_percent = 1057 / 1024, zone_type = ''gutter''\<rparr>"

definition zoneInverted :: zone where
  "zoneInverted = \<lparr>start_percent = 17 / 16, end_percent = 1, zone_type = ''gutter''\<rparr>"


definition zoneNearBottom :: zone where
  "zoneNearBottom = \<lparr>start_percent = 125 / 128, end_percent = 1001 / 1024, zone_type = ''gutter''\<rparr>"

subsection \<open>Notions used to state the properties\<close>

text \<open>
  The average that the description of the analyzer speaks of: over the pixels sampled at
  stride 2, which are the columns \<open>x = 0, 2, 4, \<dots>\<close> that have a pixel one stride to their
  right in the row and that the loop visits.
\<close>

definition sampledColumns :: "nat \<Rightarrow> nat list" where
  "sampledColumns width = filter (\<lambda>x. even x \<and> x + 2 < width) [0..<width]"

definition channel :: "byte list \<Rightarrow> nat \<Rightarrow> nat \<Rightarrow> nat \<Rightarrow> nat \<Rightarrow> rat" where
  "channel data width y x k = of_nat (unat (data ! (y * width * 4 + x * 4 + k)))"

definition channelMean :: "byte list \<Rightarrow> nat \<Rightarrow> nat \<Rightarrow> nat \<Rightarrow> rat" where
  "channelMean data width y x =
     (channel data width y x 0 + channel data width y x 1 + channel data width y x 2) / 3"

definition channelDelta :: "byte list \<Rightarrow> nat \<Rightarrow> nat \<Rightarrow> nat \<Rightarrow> rat" where
  "channelDelta data width y x =
     \<bar>channel data width y x 0 - channel data width y (x + 2) 0\<bar>
     + \<bar>channel data width y x 1 - channel data width y (x + 2) 1\<bar>
     + \<bar>channel data width y x 2 - channel data width y (x + 2) 2\<bar>"

definition average :: "rat list \<Rightarrow> rat" where
  "average xs = sum_list xs / of_nat (length xs)"

definition spec_brightness :: "byte list \<Rightarrow> nat \<Rightarrow> nat \<Rightarrow> rat" where
  "spec_brightness data width y = average (map (channelMean data width y) (sampledColumns width))"

definition spec_energy :: "byte list \<Rightarrow> nat \<Rightarrow> nat \<Rightarrow> rat" where
  "spec_energy data width y = average (map (channelDelta data width y) (sampledColumns width))"

text \<open>Hint zones whose two fractions lie between 0 and 1.\<close>

definition zonesInRange :: "zone list \<Rightarrow> bool" where
  "zonesInRange zones \<longleftrightarrow>
     list_all (\<lambda>z. 0 \<le> start_percent z \<and> start_percent z \<le> 1
                  \<and> 0 \<le> end_percent z \<and> end_percent z \<le> 1) zones"

text \<open>The bytes of \<open>h\<close> rows of a canvas, from row \<open>y1\<close> on.\<close>

definition rowsBytes :: "canvas \<Rightarrow> int \<Rightarrow> nat \<Rightarrow> byte list" where
  "rowsBytes c y1 h =
     concat (map (\<lambda>j. concat (map (\<lambda>i. pixelAt c (int i) (y1 + int j)) [0..<cwidth c])) [0..<h])"

text \<open>The canvases of the chunks, by recursion on the list of cut points.\<close>

fun slices :: "canvas \<Rightarrow> int list \<Rightarrow> canvas list" where
  "slices source (y1 # y2 # points) =
     (if y2 - y1 < 100 then [] else [drawImage source y1 (nat (y2 - y1))]) @ slices source (y2 # points)"
| "slices source points = []"

text \<open>Every gap between consecutive cut points has at least the minimum chunk height.\<close>

fun gaps_ok :: "int list \<Rightarrow> bool" where
  "gaps_ok (y1 # y2 # points) = (y2 - y1 \<ge> 100 \<and> gaps_ok (y2 # points))"
| "gaps_ok points = True"


section \<open>The scheduler of the App component\<close>

text \<open>
  The work items are the \<open>MangaPage\<close> objects held in the React state \<open>pages\<close>. The file
  payload plays no part in scheduling and is kept as a name. The field \<open>id\<close> of the source is
  called \<open>page_id\<close> here.
\<close>

datatype page_status = Pending | Processing | Completed | Error

record MangaPage =
  page_id :: string
  originalFile :: string
  originalUrl :: string
  translatedUrl :: "string option"
  status :: page_status
  pageNumber :: int

definition CONCURRENCY_LIMIT :: int where
  "CONCURRENCY_LIMIT = 5"

definition RPM_LIMIT :: int where
  "RPM_LIMIT = 20"

text \<open>
  The state of the component: the two pieces of React state the scheduler reads and writes,
  the flag \<open>hasKey\<close>, and the calls of \<open>processPage\<close> whose promise has not settled yet
  (each call holds the page object it was started with).
\<close>

record app_state =
  pages :: "MangaPage list"
  requestHistory :: "int list"
  hasKey :: bool
  inflight :: "MangaPage list"

subsection \<open>The state updates of \<open>processPage\<close> and \<open>handleRegenerate\<close>\<close>

definition processPage_success :: "MangaPage \<Rightarrow> string \<Rightarrow> MangaPage list \<Rightarrow> MangaPage list" where
  "processPage_success page url prev =
     map (\<lambda>p. if page_id p = page_id page
              then p\<lparr>status := Completed, translatedUrl := Some url\<rparr>
              else p) prev"

definition processPage_failure :: "MangaPage \<Rightarrow> MangaPage list \<Rightarrow> MangaPage list" where
  "processPage_failure page prev =
     map (\<lambda>p. if page_id p = page_id page then p\<lparr>status := Error\<rparr> else p) prev"

definition handleRegenerate :: "string \<Rightarrow> MangaPage list \<Rightarrow> MangaPage list" where
  "handleRegenerate pageId prev =
     map (\<lambda>p. if page_id p = pageId
              then p\<lparr>status := Pending, translatedUrl := None\<rparr>
              else p) prev"

subsection \<open>The periodic clean-up of the request history\<close>

definition cleanupHistory :: "int \<Rightarrow> int list \<Rightarrow> int list" where
  "cleanupHistory now prev =
     (let filtered = filter (\<lambda>t. now - t < 60000) prev
      in if length filtered \<noteq> length prev then filtered else prev)"

subsection \<open>The main scheduler effect\<close>

text \<open>
  One run of the effect at clock value \<open>now\<close>. \<open>toStartCount\<close> is the number computed by the
  effect up to \<open>Math.min\<close>; each early \<open>return\<close> of the source starts nothing, which is the
  value 0 here.
\<close>

definition toStartCount :: "int \<Rightarrow> app_state \<Rightarrow> int" where
  "toStartCount now s =
     (if \<not> hasKey s then 0 else
      let activeCount = int (length (filter (\<lambda>p. status p = Processing) (pages s)));
          pendingPages = filter (\<lambda>p. status p = Pending) (pages s)
      in if length pendingPages = 0 then 0 else
      let concurrencySlots = CONCURRENCY_LIMIT - activeCount
      in if concurrencySlots \<le> 0 then 0 else
      let validHistory = filter (\<lambda>t. now - t < 60000) (requestHistory s);
          rpmSlots = RPM_LIMIT - int (length validHistory)
      in if rpmSlots \<le> 0 then 0 else
      min (int (length pendingPages)) (min concurrencySlots rpmSlots))"

definition pagesToStart :: "int \<Rightarrow> app_state \<Rightarrow> MangaPage list" where
  "pagesToStart now s =
     take (nat (toStartCount now s)) (filter (\<lambda>p. status p = Pending) (pages s))"

definition scheduler :: "int \<Rightarrow> app_state \<Rightarrow> app_state" where
  "scheduler now s =
     (if toStartCount now s > 0 then
        let newTimestamps = replicate (nat (toStartCount now s)) now
        in s\<lparr>requestHistory := requestHistory s @ newTimestamps,
             pages := map (\<lambda>p. if \<exists>start \<in> set (pagesToStart now s). page_id start = page_id p
                               then p\<lparr>status := Processing\<rparr>
                               else p) (pages s),
             inflight := inflight s @ pagesToStart now s\<rparr>
      else s)"

subsection \<open>Runs of the component\<close>

text \<open>
  The events that change the state: a run of the scheduler effect, a run of the clean-up
  interval, the settling of an outstanding call of \<open>processPage\<close> (with the translated url, or
  with an error), a call of \<open>handleRegenerate\<close>, and the selection of the API key. A settling
  names the id of the page its call was started with; it is an event only while such a call
  is outstanding.
\<close>

datatype event =
    Tick int
  | Cleanup int
  | Resolved string string
  | Rejected string
  | Regenerate string
  | KeySelected

fun step :: "event \<Rightarrow> app_state \<Rightarrow> app_state" where
  "step (Tick now) s = scheduler now s"
| "step (Cleanup now) s = s\<lparr>requestHistory := cleanupHistory now (requestHistory s)\<rparr>"
| "step (Resolved pageId url) s =
     (case find (\<lambda>c. page_id c = pageId) (inflight s) of
        None \<Rightarrow> s
      | Some page \<Rightarrow> s\<lparr>pages := processPage_success page url (pages s),
                        inflight := remove1 page (inflight s)\<rparr>)"
| "step (Rejected pageId) s =
     (case find (\<lambda>c. page_id c = pageId) (inflight s) of
        None \<Rightarrow> s
      | Some page \<Rightarrow> s\<lparr>pages := processPage_failure page (pages s),
                        inflight := remove1 page (inflight s)\<rparr>)"
| "step (Regenerate pageId) s = s\<lparr>pages := handleRegenerate pageId (pages s)\<rparr>"
| "step KeySelected s = s\<lparr>hasKey := True\<rparr>"

fun run :: "event list \<Rightarrow> app_state \<Rightarrow> app_state" where
  "run [] s = s"
| "run (e # es) s = run es (step e s)"

definition processingCount :: "MangaPage list \<Rightarrow> nat" where
  "processingCount ps = length (filter (\<lambda>p. status p = Processing) ps)"

text \<open>A pool of Pending items, as \<open>handleFilesSelected\<close> leaves it: fresh ids, nothing started.\<close>

definition initial :: "app_state \<Rightarrow> bool" where
  "initial s \<longleftrightarrow>
     distinct (map page_id (pages s)) \<and> list_all (\<lambda>p. status p = Pending) (pages s) \<and>
     requestHistory s = [] \<and> inflight s = []"

subsection \<open>Admissions\<close>

text \<open>
  An admission is a transition of an item from Pending to Processing. \<open>admissions now s\<close>
  counts the items that the run of the scheduler effect at \<open>now\<close> moves from Pending to
  Processing, and \<open>admissionLog\<close> collects, along a run, the clock value of every admission.
  The log is never compacted: it is an observation of the run, not a part of the state.
\<close>

definition admissions :: "int \<Rightarrow> app_state \<Rightarrow> nat" where
  "admissions now s =
     length (filter (\<lambda>(p, p'). status p = Pending \<and> status p' = Processing)
                    (zip (pages s) (pages (scheduler now s))))"

fun admissionLog :: "event list \<Rightarrow> app_state \<Rightarrow> int list" where
  "admissionLog [] s = []"
| "admissionLog (Tick now # es) s =
     replicate (admissions now s) now @ admissionLog es (scheduler now s)"
| "admissionLog (e # es) s = admissionLog es (step e s)"

text \<open>The clock values read by the events of a run, in order.\<close>

fun eventTimes :: "event list \<Rightarrow> int list" where
  "eventTimes [] = []"
| "eventTimes (Tick now # es) = now # eventTimes es"
| "eventTimes (Cleanup now # es) = now # eventTimes es"
| "eventTimes (e # es) = eventTimes es"

text \<open>
  The invariant that ties the request history to the admission log: \<open>c\<close> is the latest
  clock value read so far, and every admission still inside the window of a later clock value
  is still in the history.
\<close>

definition rateInv :: "app_state \<Rightarrow> int list \<Rightarrow> int \<Rightarrow> bool" where
  "rateInv s L c \<longleftrightarrow>
     distinct (map page_id (pages s)) \<and> (\<forall>t \<in> set L. t \<le> c) \<and>
     (\<forall>now \<ge> c. filter (\<lambda>t. now - t < 60000) (requestHistory s) = filter (\<lambda>t. now - t < 60000) L) \<and>
     (\<forall>T. int (length (filter (\<lambda>t. t \<le> T \<and> T - t < 60000) L)) \<le> RPM_LIMIT)"

subsection \<open>The regenerate buttons of the reader\<close>

text \<open>
  \<open>MangaReader\<close> renders, for each page, either the translated image with a redo button
  (status completed and a non-empty \<open>translatedUrl\<close>), or a placeholder that carries a retry
  button only when the status is error. These buttons are the only callers of
  \<open>handleRegenerate\<close>.
\<close>

definition regenerateOffered :: "MangaPage \<Rightarrow> bool" where
  "regenerateOffered p \<longleftrightarrow>
     (status p = Completed \<and> translatedUrl p \<noteq> None \<and> translatedUrl p \<noteq> Some [])
     \<or> status p = Error"

text \<open>
  An event can happen in a state when the user interface or the runtime can produce it: a
  regenerate needs its button, a settling needs an outstanding call.
\<close>

fun enabled :: "event \<Rightarrow> app_state \<Rightarrow> bool" where
  "enabled (Regenerate pageId) s =
     list_ex (\<lambda>p. page_id p = pageId \<and> regenerateOffered p) (pages s)"
| "enabled (Resolved pageId url) s = list_ex (\<lambda>c. page_id c = pageId) (inflight s)"
| "enabled (Rejected pageId) s = list_ex (\<lambda>c. page_id c = pageId) (inflight s)"
| "enabled e s = True"

fun feasible :: "event list \<Rightarrow> app_state \<Rightarrow> bool" where
  "feasible [] s = True"
| "feasible (e # es) s = (enabled e s \<and> feasible es (step e s))"

text \<open>
  The invariant of the runs the user interface allows: the outstanding calls are exactly the
  calls of the items that are Processing, one call each.
\<close>

definition callInv :: "app_state \<Rightarrow> bool" where
  "callInv s \<longleftrightarrow>
     distinct (map page_id (pages s)) \<and> distinct (map page_id (inflight s)) \<and>
     set (map page_id (inflight s))
       = set (map page_id (filter (\<lambda>p. status p = Processing) (pages s)))"

text \<open>
  Along a run, no run of the scheduler effect starts the item with the given id: the item
  makes no transition from Pending to Processing.
\<close>

fun neverStarted :: "string \<Rightarrow> event list \<Rightarrow> app_state \<Rightarrow> bool" where
  "neverStarted pageId [] s = True"
| "neverStarted pageId (Tick now # es) s =
     (list_all (\<lambda>start. page_id start \<noteq> pageId) (pagesToStart now s)
      \<and> neverStarted pageId es (scheduler now s))"
| "neverStarted pageId (e # es) s = neverStarted pageId es (step e s)"

text \<open>Every item with the given id is as a regenerate leaves it: Pending, without a result.\<close>

definition resetItem :: "string \<Rightarrow> app_state \<Rightarrow> bool" where
  "resetItem pageId s \<longleftrightarrow>
     list_all (\<lambda>p. page_id p = pageId \<longrightarrow> status p = Pending \<and> translatedUrl p = None) (pages s)"

subsection \<open>Example pools\<close>

definition examplePage :: "string \<Rightarrow> MangaPage" where
  "examplePage i =
     \<lparr>page_id = i, originalFile = i, originalUrl = i, translatedUrl = None,
      status = Pending, pageNumber = 0\<rparr>"

definition examplePool :: "string list \<Rightarrow> app_state" where
  "examplePool ids =
     \<lparr>pages = map examplePage ids, requestHistory = [], hasKey = True, inflight = []\<rparr>"

text \<open>
  A run over 25 items that exhausts the rate limit: four runs of the effect admit five items
  each, with all calls settling in between; the run at time 4 finds the window full; the run
  at time 60001 finds the admissions of times 0 and 1 expired.
\<close>

definition exampleIds :: "nat \<Rightarrow> nat \<Rightarrow> string list" where
  "exampleIds m n = map (\<lambda>k. replicate k CHR ''p'') [m..<n]"

definition settleAll :: "string list \<Rightarrow> event list" where
  "settleAll ids = map (\<lambda>i. Resolved i ''url'') ids"

definition busyRun :: "event list" where
  "busyRun = Tick 0 # settleAll (exampleIds 1 6) @ Tick 1 # settleAll (exampleIds 6 11)
     @ Tick 2 # settleAll (exampleIds 11 16) @ Tick 3 # settleAll (exampleIds 16 21)
     @ [Tick 4, Cleanup 60001, Tick 60001]"

section \<open>Properties of the slicer\<close>

subsection \<open>Image data and scores\<close>

lemma length_concat_const:
  "(\<And>x. x \<in> set xs \<Longrightarrow> length (f x) = k) \<Longrightarrow> length (concat (map f xs)) = k * length xs"
  by (induction xs) auto

lemma length_pixelAt [simp]: "length (pixelAt c x y) = 4"
  by (simp add: pixelAt_def split: prod.splits)

lemma length_getImageData:
  "getImageData c sx sy sw sh = Some data \<Longrightarrow> length data = 4 * sw * sh"
  by (auto simp: getImageData_def length_concat_const split: if_splits)

lemma getImageData_Some:
  "0 < sw \<Longrightarrow> 0 < sh \<Longrightarrow> \<exists>data. getImageData c sx sy sw sh = Some data"
  by (simp add: getImageData_def)

lemma getImageData_cong:
  assumes "\<And>x y. sy \<le> y \<Longrightarrow> y < sy + int sh \<Longrightarrow> pixelAt c' x y = pixelAt c x y"
  shows "getImageData c' sx sy sw sh = getImageData c sx sy sw sh"
  unfolding getImageData_def
  by (auto intro!: arg_cong[where f=concat] map_cong simp: assms)

lemma nadd_NaN [simp]: "nadd a b \<noteq> NaN \<longleftrightarrow> a \<noteq> NaN \<and> b \<noteq> NaN"
  by (cases a; cases b) simp_all

lemma nsub_NaN [simp]: "nsub a b \<noteq> NaN \<longleftrightarrow> a \<noteq> NaN \<and> b \<noteq> NaN"
  by (cases a; cases b) simp_all

lemma nmul_NaN [simp]: "nmul a b \<noteq> NaN \<longleftrightarrow> a \<noteq> NaN \<and> b \<noteq> NaN"
  by (cases a; cases b) simp_all

lemma nabs_NaN [simp]: "nabs a \<noteq> NaN \<longleftrightarrow> a \<noteq> NaN"
  by (cases a) simp_all

lemma ndiv_NaN [simp]: "r \<noteq> 0 \<Longrightarrow> ndiv a (Num r) \<noteq> NaN \<longleftrightarrow> a \<noteq> NaN"
  by (cases a) simp_all

lemma rd_NaN [simp]: "rd data i \<noteq> NaN \<longleftrightarrow> i < length data"
  by (simp add: rd_def)

lemma rowLoop_finite:
  assumes "rowOffset + 4 * width \<le> length data" "fst acc \<noteq> NaN" "snd acc \<noteq> NaN"
  shows "fst (rowLoop data width rowOffset x acc) \<noteq> NaN \<and> snd (rowLoop data width rowOffset x acc) \<noteq> NaN"
  using assms
proof (induction data width rowOffset x acc rule: rowLoop.induct)
  case (1 data width rowOffset x diffSum brightnessSum)
  show ?case
  proof (cases "int x < int width - 2")
    case False
    then show ?thesis using 1(3,4) by (simp add: rowLoop.simps[of data width rowOffset x])
  next
    case True
    have b: "rowOffset + (x + 2) * 4 + 2 < length data" using True 1(2) by simp
    show ?thesis
      using True b 1(3,4) 1(1)[OF True refl refl refl refl refl refl refl 1(2)]
      by (simp add: rowLoop.simps[of data width rowOffset x] Let_def)
  qed
qed

lemma calculateRowEnergy_finite:
  assumes "length data = 4 * width * height" "y < height" "0 < width"
  shows "fst (calculateRowEnergy data width y) \<noteq> NaN \<and> snd (calculateRowEnergy data width y) \<noteq> NaN"
proof -
  have "y * width * 4 + 4 * width \<le> 4 * width * height"
  proof -
    have "Suc y \<le> height" using assms(2) by simp
    then have "(Suc y) * (4 * width) \<le> height * (4 * width)" by (rule mult_le_mono1)
    then show ?thesis by (simp add: algebra_simps)
  qed
  then have "y * width * 4 + 4 * width \<le> length data" using assms(1) by simp
  from rowLoop_finite[OF this, of "(Num 0, Num 0)" 0]
  have r: "fst (rowLoop data width (y * width * 4) 0 (Num 0, Num 0)) \<noteq> NaN"
    "snd (rowLoop data width (y * width * 4) 0 (Num 0, Num 0)) \<noteq> NaN" by simp_all
  have c: "(of_int \<lceil>(of_nat width :: rat) / 2\<rceil> :: rat) \<noteq> 0"
  proof -
    have "(0::rat) < of_nat width / 2" using assms(3) by simp
    then have "0 < \<lceil>(of_nat width :: rat) / 2\<rceil>" by (simp only: zero_less_ceiling)
    then have "\<lceil>(of_nat width :: rat) / 2\<rceil> \<noteq> 0" by linarith
    then show ?thesis by (simp only: of_int_eq_0_iff not_False_eq_True)
  qed
  obtain d b where db: "rowLoop data width (y * width * 4) 0 (Num 0, Num 0) = (d, b)"
    by (cases "rowLoop data width (y * width * 4) 0 (Num 0, Num 0)")
  show ?thesis using r c unfolding calculateRowEnergy_def Let_def db
    by simp
qed

lemma rowScore_finite:
  assumes "length data = 4 * width * height" "y < height" "0 < width"
  shows "rowScore data width height y \<noteq> NaN"
proof -
  have h: "(of_nat height :: rat) / 2 \<noteq> 0" using assms(2) by simp
  have d: "ndiv (Num (of_nat height)) (Num 2) = Num (of_nat height / 2)" by simp
  obtain e b where eb: "calculateRowEnergy data width y = (e, b)"
    by (cases "calculateRowEnergy data width y")
  have "e \<noteq> NaN" using calculateRowEnergy_finite[OF assms] eb by simp
  then show ?thesis
    unfolding rowScore_def eb Let_def d using h by simp
qed

lemma scanRow_first:
  assumes "rowScore data width height y = Num r"
  shows "scanRow data width height (b, Infinity) y = (int y, Finite r)"
  using assms by (simp add: scanRow_def)

lemma scanRow_next:
  assumes "rowScore data width height y = Num r" "0 \<le> fst st" "fst st < int y" "snd st \<noteq> Infinity"
  shows "0 \<le> fst (scanRow data width height st y) \<and> fst (scanRow data width height st y) < int (Suc y)
       \<and> snd (scanRow data width height st y) \<noteq> Infinity"
  using assms by (simp add: scanRow_def)

lemma scan_range:
  assumes "\<And>y. y < h \<Longrightarrow> rowScore data width height y \<noteq> NaN" "0 < k" "k \<le> h"
  shows "0 \<le> fst (foldl (scanRow data width height) (- 1, Infinity) [0..<k])
       \<and> fst (foldl (scanRow data width height) (- 1, Infinity) [0..<k]) < int k
       \<and> snd (foldl (scanRow data width height) (- 1, Infinity) [0..<k]) \<noteq> Infinity"
  using assms(2,3)
proof (induction k)
  case 0
  then show ?case by simp
next
  case (Suc k)
  obtain r where r: "rowScore data width height k = Num r"
    using assms(1)[of k] Suc.prems by (cases "rowScore data width height k") auto
  define st where "st = foldl (scanRow data width height) (- 1, Infinity) [0..<k]"
  have step: "foldl (scanRow data width height) (- 1, Infinity) [0..<Suc k] = scanRow data width height st k"
    by (simp add: st_def)
  show ?case
  proof (cases "k = 0")
    case True
    then have "st = (- 1, Infinity)" by (simp add: st_def)
    then show ?thesis unfolding step using scanRow_first[OF r, of "- 1"] True by simp
  next
    case False
    then have "0 \<le> fst st \<and> fst st < int k \<and> snd st \<noteq> Infinity"
      using Suc unfolding st_def by simp
    then show ?thesis unfolding step using scanRow_next[OF r, of st] by blast
  qed
qed

lemma findExactCutInZone_degenerate:
  "endY \<le> startY \<Longrightarrow> findExactCutInZone ctx width startY endY = Some startY"
  by (simp add: findExactCutInZone_def)

lemma findExactCutInZone_in_zone:
  assumes "startY < endY" "0 < width"
  shows "\<exists>cut. findExactCutInZone ctx width startY endY = Some cut \<and> startY \<le> cut \<and> cut < endY"
proof -
  let ?h = "nat (endY - startY)"
  have h: "0 < ?h" using assms(1) by simp
  obtain data where data: "getImageData ctx 0 startY width ?h = Some data"
    using getImageData_Some[OF assms(2) h] by blast
  have len: "length data = 4 * width * ?h" by (rule length_getImageData[OF data])
  have fin: "\<And>y. y < ?h \<Longrightarrow> rowScore data width ?h y \<noteq> NaN"
    using rowScore_finite[OF len _ assms(2)] by blast
  obtain bestY minEnergy where st: "foldl (scanRow data width ?h) (- 1, Infinity) [0..<?h] = (bestY, minEnergy)"
    by (cases "foldl (scanRow data width ?h) (- 1, Infinity) [0..<?h]")
  have "0 \<le> bestY \<and> bestY < int ?h"
    using scan_range[of ?h data width ?h ?h, OF fin h] st by simp
  then have "startY \<le> startY + bestY \<and> startY + bestY < endY" using assms(1) by auto
  moreover have "findExactCutInZone ctx width startY endY = Some (startY + bestY)"
    using assms(1) data st by (simp add: findExactCutInZone_def Let_def)
  ultimately show ?thesis by blast
qed

lemma findExactCutInZone_reads_zone_only:
  assumes "\<And>x y. startY \<le> y \<Longrightarrow> y < endY \<Longrightarrow> pixelAt ctx' x y = pixelAt ctx x y"
  shows "findExactCutInZone ctx' width startY endY = findExactCutInZone ctx width startY endY"
proof (cases "startY < endY")
  case False
  then show ?thesis by (simp add: findExactCutInZone_def)
next
  case True
  have "getImageData ctx' 0 startY width (nat (endY - startY))
      = getImageData ctx 0 startY width (nat (endY - startY))"
    by (rule getImageData_cong) (use True assms in auto)
  then show ?thesis by (simp add: findExactCutInZone_def)
qed

lemma findExactCutInZone_total:
  "0 < width \<Longrightarrow> \<exists>cut. findExactCutInZone ctx width startY endY = Some cut"
  using findExactCutInZone_degenerate[of endY startY ctx width]
    findExactCutInZone_in_zone[of startY endY width ctx]
  by (cases "startY < endY") auto


subsection \<open>The cut found in a zone\<close>

text \<open>
  Claim C5. When \<open>startY \<ge> endY\<close>, \<open>findExactCutInZone\<close> returns \<open>startY\<close>. Otherwise, for a
  width of at least one pixel, it returns a row \<open>cut\<close> with \<open>startY \<le> cut < endY\<close>. Its result
  depends on no pixel outside the rows from \<open>startY\<close> up to \<open>endY\<close>: two canvases that agree on
  these rows give the same cut. Every element that the scan reads lies inside the array
  obtained for these rows, so no score is \<open>NaN\<close>.
\<close>

theorem findExactCutInZone_range:
  "(endY \<le> startY \<longrightarrow> findExactCutInZone ctx width startY endY = Some startY)
   \<and> (startY < endY \<and> 0 < width \<longrightarrow>
        (\<exists>cut. findExactCutInZone ctx width startY endY = Some cut \<and> startY \<le> cut \<and> cut < endY))
   \<and> ((\<forall>x y. startY \<le> y \<and> y < endY \<longrightarrow> pixelAt ctx' x y = pixelAt ctx x y) \<longrightarrow>
        findExactCutInZone ctx' width startY endY = findExactCutInZone ctx width startY endY)
   \<and> (\<forall>data y. startY < endY \<and> 0 < width
          \<and> getImageData ctx 0 startY width (nat (endY - startY)) = Some data
          \<and> y < nat (endY - startY) \<longrightarrow>
        rowScore data width (nat (endY - startY)) y \<noteq> NaN)"
proof -
  have a: "endY \<le> startY \<longrightarrow> findExactCutInZone ctx width startY endY = Some startY"
    using findExactCutInZone_degenerate by blast
  have b: "startY < endY \<and> 0 < width \<longrightarrow>
        (\<exists>cut. findExactCutInZone ctx width startY endY = Some cut \<and> startY \<le> cut \<and> cut < endY)"
    using findExactCutInZone_in_zone by blast
  have c: "(\<forall>x y. startY \<le> y \<and> y < endY \<longrightarrow> pixelAt ctx' x y = pixelAt ctx x y) \<longrightarrow>
        findExactCutInZone ctx' width startY endY = findExactCutInZone ctx width startY endY"
    using findExactCutInZone_reads_zone_only[of startY endY ctx' ctx width] by blast
  have d: "\<forall>data y. startY < endY \<and> 0 < width
          \<and> getImageData ctx 0 startY width (nat (endY - startY)) = Some data
          \<and> y < nat (endY - startY) \<longrightarrow>
        rowScore data width (nat (endY - startY)) y \<noteq> NaN"
    using rowScore_finite length_getImageData by blast
  from a b c d show ?thesis by blast
qed

text \<open>
  Instances on a white image four pixels wide: an empty zone, a zone of four rows whose cut is
  its middle row, the same zone on a taller image that agrees on these rows.
\<close>

theorem findExactCutInZone_range_witness:
  "findExactCutInZone (plainCanvas 4 100 255) 4 50 50 = Some 50
   \<and> (\<exists>cut. findExactCutInZone (plainCanvas 4 100 255) 4 50 54 = Some cut \<and> 50 \<le> cut \<and> cut < 54)
   \<and> findExactCutInZone (plainCanvas 4 100 255) 4 50 54 = Some 52
   \<and> findExactCutInZone (plainCanvas 4 4000 255) 4 50 54 = findExactCutInZone (plainCanvas 4 100 255) 4 50 54
   \<and> rowScore (replicate 64 255) 4 4 3 \<noteq> NaN"
proof -
  have a: "findExactCutInZone (plainCanvas 4 100 255) 4 50 50 = Some 50"
    using findExactCutInZone_range[of 50 50 "plainCanvas 4 100 255" 4 "plainCanvas 4 100 255"] by blast
  have b: "\<exists>cut. findExactCutInZone (plainCanvas 4 100 255) 4 50 54 = Some cut \<and> 50 \<le> cut \<and> cut < 54"
    using findExactCutInZone_range[of 54 50 "plainCanvas 4 100 255" 4 "plainCanvas 4 100 255"] by simp
  have c: "findExactCutInZone (plainCanvas 4 100 255) 4 50 54 = Some 52"
    by code_simp
  have "\<forall>x y. 50 \<le> y \<and> y < 54 \<longrightarrow>
      pixelAt (plainCanvas 4 4000 255) x y = pixelAt (plainCanvas 4 100 255) x y"
    by (auto simp: pixelAt_def plainCanvas_def)
  then have d: "findExactCutInZone (plainCanvas 4 4000 255) 4 50 54
      = findExactCutInZone (plainCanvas 4 100 255) 4 50 54"
    using findExactCutInZone_range[of 54 50 "plainCanvas 4 100 255" 4 "plainCanvas 4 4000 255"]
    by blast
  have g: "getImageData (plainCanvas 4 100 255) 0 50 4 (nat (54 - 50)) = Some (replicate 64 255)"
    by code_simp
  have e: "rowScore (replicate 64 255) 4 4 3 \<noteq> NaN"
    using findExactCutInZone_range[of 54 50 "plainCanvas 4 100 255" 4 "plainCanvas 4 100 255"] g
    by simp
  from a b c d e show ?thesis by (intro conjI)
qed

subsection \<open>Termination of the slicing loop\<close>

lemma zoneCut_total:
  "0 < cwidth ctx \<Longrightarrow> \<exists>cut. zoneCut ctx zones currentY = Some cut"
  using findExactCutInZone_total[of "cwidth ctx" ctx]
  by (simp add: zoneCut_def Let_def)

lemma selectCut_total:
  assumes "0 < cwidth ctx"
  shows "\<exists>cut. selectCut ctx zones currentY = Some cut"
proof -
  obtain c where c: "zoneCut ctx zones currentY = Some c"
    using zoneCut_total[OF assms] by blast
  show ?thesis
    using findExactCutInZone_total[OF assms, of ctx] c
    by (simp add: selectCut_def Let_def)
qed

lemma strict_sorted_le_last:
  "sorted_wrt (<) (xs :: int list) \<Longrightarrow> x \<in> set xs \<Longrightarrow> x \<le> last xs"
  by (induction xs) (auto simp: less_imp_le)

lemma strict_sorted_snoc:
  assumes "sorted_wrt (<) (xs :: int list)" "xs \<noteq> []" "last xs < y"
  shows "sorted_wrt (<) (xs @ [y])"
  using assms strict_sorted_le_last[OF assms(1)]
  by (fastforce simp: sorted_wrt_append)

lemma sliceLoop_progress:
  assumes "0 < cwidth ctx" "splitPoints \<noteq> []" "last splitPoints = currentY" "sorted_wrt (<) splitPoints"
  shows "\<exists>pts. sliceLoop ctx zones currentY splitPoints = Some pts
           \<and> sorted_wrt (<) pts \<and> pts \<noteq> [] \<and> hd pts = hd splitPoints
           \<and> int (cheight ctx) \<le> last pts + TARGET_CHUNK_HEIGHT"
  using assms
proof (induction ctx zones currentY splitPoints rule: sliceLoop.induct)
  case (1 ctx zones currentY splitPoints)
  show ?case
  proof (cases "currentY < int (cheight ctx)")
    case False
    then show ?thesis using 1(2-)
      by (simp add: sliceLoop.simps[of ctx zones currentY splitPoints] TARGET_CHUNK_HEIGHT_def)
  next
    case True
    show ?thesis
    proof (cases "currentY + TARGET_CHUNK_HEIGHT \<ge> int (cheight ctx)")
      case True
      then show ?thesis using \<open>currentY < int (cheight ctx)\<close> 1(2-)
        by (simp add: sliceLoop.simps[of ctx zones currentY splitPoints] Let_def)
    next
      case False
      obtain cutY0 where c0: "selectCut ctx zones currentY = Some cutY0"
        using selectCut_total[OF 1(2)] by blast
      define cutY where "cutY = (if cutY0 \<le> currentY then currentY + TARGET_CHUNK_HEIGHT else cutY0)"
      have gt: "currentY < cutY" by (simp add: cutY_def TARGET_CHUNK_HEIGHT_def)
      have s: "sorted_wrt (<) (splitPoints @ [cutY])"
        using strict_sorted_snoc[OF 1(5) 1(3)] 1(4) gt by simp
      from 1(1)[OF True refl False c0 cutY_def 1(2) _ _ s]
      obtain pts where pts: "sliceLoop ctx zones cutY (splitPoints @ [cutY]) = Some pts"
        "sorted_wrt (<) pts" "pts \<noteq> []" "hd pts = hd (splitPoints @ [cutY])"
        "int (cheight ctx) \<le> last pts + TARGET_CHUNK_HEIGHT"
        by auto
      have "sliceLoop ctx zones currentY splitPoints = Some pts"
        using True False c0 pts(1)
        by (simp add: sliceLoop.simps[of ctx zones currentY splitPoints] Let_def cutY_def)
      then show ?thesis using pts 1(3) by auto
    qed
  qed
qed


lemma sliceLoop_forced_cut:
  assumes "currentY + TARGET_CHUNK_HEIGHT < int (cheight ctx)"
    "selectCut ctx zones currentY = Some cutY0" "cutY0 \<le> currentY"
  shows "sliceLoop ctx zones currentY splitPoints
       = sliceLoop ctx zones (currentY + TARGET_CHUNK_HEIGHT)
           (splitPoints @ [currentY + TARGET_CHUNK_HEIGHT])"
  using assms
  by (simp add: sliceLoop.simps[of ctx zones currentY splitPoints] Let_def TARGET_CHUNK_HEIGHT_def)

lemma strict_sorted_ge_hd:
  "sorted_wrt (<) (xs :: int list) \<Longrightarrow> x \<in> set xs \<Longrightarrow> hd xs \<le> x"
  by (cases xs) (auto simp: less_imp_le)






subsection \<open>Reassembling the chunks\<close>

lemma pixelAt_drawImage:
  "i < cwidth source \<Longrightarrow> j < h \<Longrightarrow>
   pixelAt (drawImage source y1 h) (int i) (int j) = pixelAt source (int i) (y1 + int j)"
  by (auto simp: pixelAt_def drawImage_def)

lemma canvasBytes_drawImage:
  "canvasBytes (drawImage source y1 h) = rowsBytes source y1 h"
proof -
  have "cwidth (drawImage source y1 h) = cwidth source" "cheight (drawImage source y1 h) = h"
    by (simp_all add: drawImage_def)
  then show ?thesis
    unfolding canvasBytes_def rowsBytes_def
    by (auto intro!: arg_cong[where f=concat] map_cong simp: pixelAt_drawImage)
qed

lemma canvasBytes_rowsBytes: "canvasBytes c = rowsBytes c 0 (cheight c)"
  by (simp add: canvasBytes_def rowsBytes_def)

lemma rowsBytes_add:
  "rowsBytes c y1 (h1 + h2) = rowsBytes c y1 h1 @ rowsBytes c (y1 + int h1) h2"
  by (induction h2) (simp_all add: rowsBytes_def add.assoc)

lemma length_rowsBytes: "length (rowsBytes c y1 h) = 4 * cwidth c * h"
  by (simp add: rowsBytes_def length_concat_const)

lemma chunkAt_Cons:
  "map content (chunkAt source (y # points) (Suc i)) = map content (chunkAt source points i)"
  by (simp add: chunkAt_def Let_def)

lemma generateChunks_slices:
  "map content (generateChunks source points) = slices source points"
proof (induction source points rule: slices.induct)
  case (1 source y1 y2 points)
  have "[0..<length (y1 # y2 # points) - 1] = 0 # map Suc [0..<length (y2 # points) - 1]"
    by (simp add: upt_conv_Cons map_Suc_upt del: upt_Suc)
  then have "map content (generateChunks source (y1 # y2 # points))
      = map content (chunkAt source (y1 # y2 # points) 0)
        @ concat (map (\<lambda>i. map content (chunkAt source (y1 # y2 # points) (Suc i))) [0..<length (y2 # points) - 1])"
    by (simp add: generateChunks_def map_concat comp_def del: upt_Suc)
  also have "\<dots> = map content (chunkAt source (y1 # y2 # points) 0) @ map content (generateChunks source (y2 # points))"
    by (simp add: chunkAt_Cons generateChunks_def map_concat comp_def del: upt_Suc)
  finally show ?case using 1 by (simp add: chunkAt_def Let_def)
qed (simp_all add: generateChunks_def)

lemma stacked_slices:
  assumes "gaps_ok (y # points)"
  shows "stacked (slices source (y # points)) = rowsBytes source y (nat (last (y # points) - y))
       \<and> y \<le> last (y # points)"
  using assms
proof (induction points arbitrary: y)
  case Nil
  then show ?case by (simp add: stacked_def rowsBytes_def)
next
  case (Cons y2 points)
  have g: "y2 - y \<ge> 100" "gaps_ok (y2 # points)" using Cons.prems by simp_all
  from Cons.IH[OF g(2)]
  have ih: "stacked (slices source (y2 # points)) = rowsBytes source y2 (nat (last (y2 # points) - y2))"
    "y2 \<le> last (y2 # points)" by simp_all
  have n: "nat (last (y2 # points) - y) = nat (y2 - y) + nat (last (y2 # points) - y2)"
    using g(1) ih(2) by simp
  have "stacked (slices source (y # y2 # points))
      = rowsBytes source y (nat (y2 - y)) @ stacked (slices source (y2 # points))"
    using g(1) by (simp add: stacked_def canvasBytes_drawImage)
  also have "\<dots> = rowsBytes source y (nat (last (y2 # points) - y))"
    unfolding ih(1) n rowsBytes_add using g(1) by simp
  finally show ?case using ih(2) g(1) by simp
qed

text \<open>
  Claim C8, as stated, fails: a slice of fewer than 100 rows is skipped. With a hint zone near
  the bottom of an image of height 4096 the slicer produces the cut points 0, 4002, 4096;
  the last slice has 94 rows and no chunk, so the stacked chunks lack these rows.
\<close>

theorem chunks_drop_short_slices:
  "uniquePoints (plainCanvas 4 4096 128) [zoneNearBottom] = Some [0, 4002, 4096]
   \<and> map part (generateChunks (plainCanvas 4 4096 128) [0, 4002, 4096]) = [1]
   \<and> stacked (map content (generateChunks (plainCanvas 4 4096 128) [0, 4002, 4096]))
       \<noteq> canvasBytes (plainCanvas 4 4096 128)"
proof -
  have a: "uniquePoints (plainCanvas 4 4096 128) [zoneNearBottom] = Some [0, 4002, 4096]"
    by code_simp
  have b: "map part (generateChunks (plainCanvas 4 4096 128) [0, 4002, 4096]) = [1]"
    by code_simp
  have "length (stacked (map content (generateChunks (plainCanvas 4 4096 128) [0, 4002, 4096])))
      = 4 * 4 * 4002"
    by (simp add: generateChunks_slices stacked_def canvasBytes_drawImage length_rowsBytes plainCanvas_def)
  moreover have "length (canvasBytes (plainCanvas 4 4096 128)) = 4 * 4 * 4096"
    by (simp add: canvasBytes_rowsBytes length_rowsBytes plainCanvas_def)
  ultimately have "stacked (map content (generateChunks (plainCanvas 4 4096 128) [0, 4002, 4096]))
       \<noteq> canvasBytes (plainCanvas 4 4096 128)"
    by auto
  with a b show ?thesis by (intro conjI)
qed

text \<open>
  Claim C8, amended. For every source image and every list of cut points that begins at 0,
  ends at the image height and has no gap below the minimum chunk height of 100 rows, the
  canvases of the chunks, stacked by height in order, are byte for byte the source image,
  and every chunk has the width of the source.
\<close>

theorem chunks_reassemble:
  assumes "points \<noteq> []" "hd points = 0" "last points = int (cheight source)" "gaps_ok points"
  shows "stacked (map content (generateChunks source points)) = canvasBytes source
       \<and> list_all (\<lambda>c. cwidth (content c) = cwidth source) (generateChunks source points)"
proof -
  obtain y rest where p: "points = y # rest" using assms(1) by (cases points) auto
  have y: "y = 0" using assms(2) p by simp
  have "stacked (slices source (y # rest)) = rowsBytes source y (nat (last (y # rest) - y))"
    using stacked_slices[of y rest source] assms(4) p by simp
  then have "stacked (map content (generateChunks source points)) = canvasBytes source"
    using assms(3) p y by (simp add: generateChunks_slices canvasBytes_rowsBytes)
  moreover have "list_all (\<lambda>c. cwidth (content c) = cwidth source) (generateChunks source points)"
    by (auto simp: list_all_iff generateChunks_def chunkAt_def Let_def drawImage_def split: if_splits)
  ultimately show ?thesis by blast
qed

text \<open>An instance: an image of height 3100 cut at row 2500.\<close>

theorem chunks_reassemble_witness:
  "[0, 2500, 3100] \<noteq> ([] :: int list) \<and> hd [0, 2500, 3100] = (0 :: int)
   \<and> last [0, 2500, 3100] = int (cheight (plainCanvas 4 3100 128)) \<and> gaps_ok [0, 2500, 3100]
   \<and> stacked (map content (generateChunks (plainCanvas 4 3100 128) [0, 2500, 3100]))
       = canvasBytes (plainCanvas 4 3100 128)"
proof -
  have h: "[0, 2500, 3100] \<noteq> ([] :: int list)" "hd [0, 2500, 3100] = (0 :: int)"
    "last [0, 2500, 3100] = int (cheight (plainCanvas 4 3100 128))" "gaps_ok [0, 2500, 3100]"
    by (simp_all add: plainCanvas_def)
  from chunks_reassemble[OF h] h show ?thesis by blast
qed

subsection \<open>What the row analyzer divides by\<close>

text \<open>
  For a row that lies inside the array, the two results are the sums over the sampled columns
  divided by the number of sampled columns plus one.
\<close>

lemma sampled_from_step:
  assumes "even x" "x + 2 < width"
  shows "filter (\<lambda>c. x \<le> c) (sampledColumns width) = x # filter (\<lambda>c. x + 2 \<le> c) (sampledColumns width)"
proof -
  let ?P = "\<lambda>c. even c \<and> c + 2 < width"
  have split: "[0..<width] = [0..<x] @ x # Suc x # [x + 2..<width]"
  proof -
    have "[0..<width] = [0..<x] @ [x..<width]"
      using upt_add_eq_append[of 0 x "width - x"] assms(2) by simp
    moreover have "[x..<width] = x # Suc x # [x + 2..<width]"
      using assms(2) by (simp add: upt_conv_Cons)
    ultimately show ?thesis by simp
  qed
  have a: "filter (\<lambda>c. x \<le> c \<and> ?P c) [0..<x] = []" by (auto simp: filter_empty_conv)
  have b: "filter (\<lambda>c. x + 2 \<le> c \<and> ?P c) [0..<x] = []" by (auto simp: filter_empty_conv)
  have c: "filter (\<lambda>c. x \<le> c \<and> ?P c) [x + 2..<width] = filter (\<lambda>c. x + 2 \<le> c \<and> ?P c) [x + 2..<width]"
    by (auto intro: filter_cong)
  have "filter (\<lambda>c. x \<le> c) (sampledColumns width) = filter (\<lambda>c. x \<le> c \<and> ?P c) [0..<width]"
    by (simp add: sampledColumns_def conj_commute)
  also have "\<dots> = x # filter (\<lambda>c. x \<le> c \<and> ?P c) [x + 2..<width]"
    unfolding split using assms a by simp
  also have "\<dots> = x # filter (\<lambda>c. x + 2 \<le> c \<and> ?P c) [0..<width]"
    unfolding split using assms b c by simp
  also have "\<dots> = x # filter (\<lambda>c. x + 2 \<le> c) (sampledColumns width)"
    by (simp add: sampledColumns_def conj_commute)
  finally show ?thesis .
qed

lemma sampled_from_end:
  assumes "\<not> x + 2 < width"
  shows "filter (\<lambda>c. x \<le> c) (sampledColumns width) = []"
  using assms by (auto simp: sampledColumns_def filter_empty_conv)

lemma rd_channel:
  "y * width * 4 + x * 4 + k < length data \<Longrightarrow>
   rd data (y * width * 4 + x * 4 + k) = Num (channel data width y x k)"
  by (simp add: rd_def channel_def)

lemma rowLoop_sums:
  assumes "y * width * 4 + 4 * width \<le> length data" "even x"
  shows "rowLoop data width (y * width * 4) x (Num d, Num b) =
     (Num (d + sum_list (map (channelDelta data width y) (filter (\<lambda>c. x \<le> c) (sampledColumns width)))),
      Num (b + sum_list (map (channelMean data width y) (filter (\<lambda>c. x \<le> c) (sampledColumns width)))))"
  using assms(2)
proof (induction "width - x" arbitrary: x d b rule: less_induct)
  case less
  show ?case
  proof (cases "x + 2 < width")
    case False
    then have "\<not> int x < int width - 2" by simp
    then show ?thesis
      by (simp add: rowLoop.simps[of data width "y * width * 4" x] sampled_from_end[OF False])
  next
    case True
    then have c: "int x < int width - 2" by simp
    have bound: "y * width * 4 + (x + 2) * 4 + 2 < length data" using True assms(1) by simp
    have r: "rd data (y * width * 4 + x * 4) = Num (channel data width y x 0)"
      "rd data (y * width * 4 + x * 4 + 1) = Num (channel data width y x 1)"
      "rd data (y * width * 4 + x * 4 + 2) = Num (channel data width y x 2)"
      "rd data (y * width * 4 + (x + 2) * 4) = Num (channel data width y (x + 2) 0)"
      "rd data (y * width * 4 + (x + 2) * 4 + 1) = Num (channel data width y (x + 2) 1)"
      "rd data (y * width * 4 + (x + 2) * 4 + 2) = Num (channel data width y (x + 2) 2)"
      using bound rd_channel[of y width x 0 data] rd_channel[of y width x 1 data]
        rd_channel[of y width x 2 data] rd_channel[of y width "x + 2" 0 data]
        rd_channel[of y width "x + 2" 1 data] rd_channel[of y width "x + 2" 2 data]
      by simp_all
    have e: "even (x + 2)" using less.prems by simp
    have m: "width - (x + 2) < width - x" using True by simp
    have step: "rowLoop data width (y * width * 4) x (Num d, Num b)
        = rowLoop data width (y * width * 4) (x + 2)
            (Num (d + channelDelta data width y x), Num (b + channelMean data width y x))"
      using c r
      by (simp add: rowLoop.simps[of data width "y * width * 4" x] Let_def
          channelDelta_def channelMean_def)
    show ?thesis
      unfolding step less.hyps[OF m e] sampled_from_step[OF less.prems True]
      by (simp add: add.assoc)
  qed
qed

lemma length_sampled_from:
  "even x \<Longrightarrow> length (filter (\<lambda>c. x \<le> c) (sampledColumns width)) = (width - x - 1) div 2"
proof (induction "width - x" arbitrary: x rule: less_induct)
  case less
  show ?case
  proof (cases "x + 2 < width")
    case False
    then show ?thesis by (simp add: sampled_from_end[OF False])
  next
    case True
    have e: "even (x + 2)" using less.prems by simp
    have m: "width - (x + 2) < width - x" using True by simp
    show ?thesis
      unfolding sampled_from_step[OF less.prems True]
      using less.hyps[OF m e] True by simp
  qed
qed

lemma count_is_samples_plus_one:
  assumes "0 < width"
  shows "\<lceil>(of_nat width :: rat) / 2\<rceil> = int (Suc (length (sampledColumns width)))"
proof -
  have "length (sampledColumns width) = (width - 1) div 2"
    using length_sampled_from[of 0 width] by simp
  moreover have "\<lceil>(of_nat width :: rat) / 2\<rceil> = - ((- int width) div 2)"
    using ceiling_divide_eq_div[of "int width" 2, where ?'a = rat] by simp
  ultimately show ?thesis using assms by (simp add: zdiv_int)
qed

lemma calculateRowEnergy_sums:
  assumes "y * width * 4 + 4 * width \<le> length data" "0 < width"
  shows "calculateRowEnergy data width y =
     (Num (sum_list (map (channelDelta data width y) (sampledColumns width))
             / of_nat (Suc (length (sampledColumns width)))),
      Num (sum_list (map (channelMean data width y) (sampledColumns width))
             / of_nat (Suc (length (sampledColumns width)))))"
proof -
  have l: "rowLoop data width (y * width * 4) 0 (Num 0, Num 0) =
     (Num (sum_list (map (channelDelta data width y) (sampledColumns width))),
      Num (sum_list (map (channelMean data width y) (sampledColumns width))))"
    using rowLoop_sums[OF assms(1), of 0 0 0] by simp
  have c: "(of_int \<lceil>(of_nat width :: rat) / 2\<rceil> :: rat) = of_nat (Suc (length (sampledColumns width)))"
    unfolding count_is_samples_plus_one[OF assms(2)] by simp
  show ?thesis
    unfolding calculateRowEnergy_def Let_def l c by simp
qed

text \<open>
  Claim C9 fails on the code. The loop of \<open>calculateRowEnergy\<close> visits the columns
  \<open>x = 0, 2, \<dots>\<close> with \<open>x + 2 < width\<close>, but both sums are divided by
  \<open>Math.ceil(width / 2)\<close>, which is one more than the number of visited columns. In a row
  of four pixels one column is sampled: the code returns half of the difference to the right
  neighbour as energy and half of the channel mean as brightness, and a white row has
  brightness 127.5.
\<close>

theorem row_average_divides_by_one_more:
  "calculateRowEnergy (rowPixels [(10, 20, 30), (0, 0, 0), (40, 60, 80), (0, 0, 0)]) 4 0
     = (Num 60, Num 10)
   \<and> sampledColumns 4 = [0]
   \<and> spec_energy (rowPixels [(10, 20, 30), (0, 0, 0), (40, 60, 80), (0, 0, 0)]) 4 0 = 120
   \<and> spec_brightness (rowPixels [(10, 20, 30), (0, 0, 0), (40, 60, 80), (0, 0, 0)]) 4 0 = 20
   \<and> calculateRowEnergy (rowPixels [(255, 255, 255), (255, 255, 255), (255, 255, 255), (255, 255, 255)]) 4 0
     = (Num 0, Num (255 / 2))
   \<and> spec_brightness (rowPixels [(255, 255, 255), (255, 255, 255), (255, 255, 255), (255, 255, 255)]) 4 0
     = 255"
  by code_simp

subsection \<open>Hint zones outside the image\<close>

text \<open>
  Whatever the hints, the finalized cut points are strictly increasing and begin at 0. When
  the fractions of every hint zone lie between 0 and 1, no cut exceeds the image height, and
  the finalized list ends at the image height.
\<close>

lemma findExactCutInZone_le:
  assumes "findExactCutInZone ctx width startY endY = Some cutY" "startY \<le> b" "endY \<le> b"
  shows "cutY \<le> b"
proof (cases "startY < endY")
  case False
  then show ?thesis using assms by (simp add: findExactCutInZone_def)
next
  case True
  have w: "0 < width"
    using assms(1) True
    by (cases "width = 0") (simp_all add: findExactCutInZone_def getImageData_def Let_def)
  from findExactCutInZone_in_zone[OF True w, of ctx] assms show ?thesis by auto
qed

lemma closerZone_cases: "closerZone h d p c = p \<or> closerZone h d p c = c"
  by (simp add: closerZone_def Let_def)

lemma foldl_closerZone_mem:
  "foldl (closerZone h d) z zs \<in> set (z # zs)"
proof (induction zs arbitrary: z)
  case Nil
  then show ?case by simp
next
  case (Cons a zs)
  from Cons.IH[of "closerZone h d z a"] closerZone_cases[of h d z a]
  show ?case by auto
qed

lemma floor_fraction_le:
  assumes "0 \<le> (p :: rat)" "p \<le> 1" "0 \<le> h"
  shows "\<lfloor>p * of_int h\<rfloor> \<le> h"
proof -
  have "p * of_int h \<le> 1 * of_int h"
    using assms by (intro mult_right_mono) simp_all
  then have "\<lfloor>p * of_int h\<rfloor> \<le> \<lfloor>(of_int h :: rat)\<rfloor>" by (intro floor_mono) simp
  then show ?thesis by simp
qed

lemma zoneCut_le_height:
  assumes "zonesInRange zones" "zoneCut ctx zones currentY = Some cutY"
  shows "cutY \<le> int (cheight ctx)"
proof -
  define H where "H = int (cheight ctx)"
  define valid where "valid = filter (\<lambda>z. zoneMid z H > of_int (currentY + 100)) zones"
  define best where "best = foldl (closerZone H (currentY + TARGET_CHUNK_HEIGHT)) (hd valid) (tl valid)"
  have zc: "zoneCut ctx zones currentY =
      (if length valid > 0 then
         if \<bar>zoneMid best H - of_int (currentY + TARGET_CHUNK_HEIGHT)\<bar> < 1800
         then findExactCutInZone ctx (cwidth ctx) \<lfloor>start_percent best * of_int H\<rfloor>
                \<lfloor>end_percent best * of_int H\<rfloor>
         else Some (- 1)
       else Some (- 1))"
    by (simp add: zoneCut_def Let_def H_def valid_def best_def)
  show ?thesis
  proof (cases "length valid > 0 \<and> \<bar>zoneMid best H - of_int (currentY + TARGET_CHUNK_HEIGHT)\<bar> < 1800")
    case False
    then have "cutY = - 1" using assms(2) unfolding zc by (auto split: if_splits)
    then show ?thesis by simp
  next
    case True
    then have ne: "valid \<noteq> []" by auto
    have "best \<in> set (hd valid # tl valid)" unfolding best_def by (rule foldl_closerZone_mem)
    then have "best \<in> set valid" using ne by simp
    then have "best \<in> set zones" by (simp add: valid_def)
    then have r: "0 \<le> start_percent best" "start_percent best \<le> 1"
      "0 \<le> end_percent best" "end_percent best \<le> 1"
      using assms(1) by (auto simp: zonesInRange_def list_all_iff)
    have h0: "0 \<le> H" by (simp add: H_def)
    have b: "\<lfloor>start_percent best * of_int H\<rfloor> \<le> H" "\<lfloor>end_percent best * of_int H\<rfloor> \<le> H"
      using r h0 by (simp_all add: floor_fraction_le)
    have "findExactCutInZone ctx (cwidth ctx) \<lfloor>start_percent best * of_int H\<rfloor>
              \<lfloor>end_percent best * of_int H\<rfloor> = Some cutY"
      using assms(2) True unfolding zc by simp
    from findExactCutInZone_le[OF this b] show ?thesis by (simp add: H_def)
  qed
qed

lemma selectCut_le_height:
  assumes "zonesInRange zones" "selectCut ctx zones currentY = Some cutY"
    "currentY + TARGET_CHUNK_HEIGHT < int (cheight ctx)"
  shows "cutY \<le> int (cheight ctx)"
proof -
  obtain c where c: "zoneCut ctx zones currentY = Some c"
    using assms(2) by (cases "zoneCut ctx zones currentY") (simp_all add: selectCut_def Let_def)
  show ?thesis
  proof (cases "c = - 1")
    case False
    then have "cutY = c" using assms(2) c by (simp add: selectCut_def Let_def)
    then show ?thesis using zoneCut_le_height[OF assms(1) c] by simp
  next
    case True
    let ?d = "currentY + TARGET_CHUNK_HEIGHT"
    have "findExactCutInZone ctx (cwidth ctx) (max (currentY + 100) (?d - 300))
            (min (int (cheight ctx) - 10) (?d + 300)) = Some cutY"
      using assms(2) c True by (simp add: selectCut_def Let_def)
    from findExactCutInZone_le[OF this, of "int (cheight ctx)"] assms(3)
    show ?thesis by (simp add: TARGET_CHUNK_HEIGHT_def)
  qed
qed

lemma sliceLoop_within_height:
  assumes "zonesInRange zones" "sliceLoop ctx zones currentY splitPoints = Some pts"
    "\<forall>y \<in> set splitPoints. y \<le> int (cheight ctx)"
  shows "\<forall>y \<in> set pts. y \<le> int (cheight ctx)"
  using assms
proof (induction ctx zones currentY splitPoints rule: sliceLoop.induct)
  case (1 ctx zones currentY splitPoints)
  show ?case
  proof (cases "currentY < int (cheight ctx) \<and> \<not> currentY + TARGET_CHUNK_HEIGHT \<ge> int (cheight ctx)")
    case False
    then have "pts = splitPoints"
      using 1(3) by (auto simp: sliceLoop.simps[of ctx zones currentY splitPoints] Let_def split: if_splits)
    then show ?thesis using 1(4) by simp
  next
    case True
    then have lt: "currentY < int (cheight ctx)" and nd: "\<not> currentY + TARGET_CHUNK_HEIGHT \<ge> int (cheight ctx)"
      by simp_all
    obtain cutY0 where c0: "selectCut ctx zones currentY = Some cutY0"
      using 1(3) lt nd
      by (cases "selectCut ctx zones currentY")
         (simp_all add: sliceLoop.simps[of ctx zones currentY splitPoints] Let_def)
    define cutY where "cutY = (if cutY0 \<le> currentY then currentY + TARGET_CHUNK_HEIGHT else cutY0)"
    have le: "cutY \<le> int (cheight ctx)"
      using selectCut_le_height[OF 1(2) c0] nd by (simp add: cutY_def)
    have rec: "sliceLoop ctx zones cutY (splitPoints @ [cutY]) = Some pts"
      using 1(3) lt nd c0
      by (simp add: sliceLoop.simps[of ctx zones currentY splitPoints] Let_def cutY_def)
    show ?thesis
      using 1(1)[OF lt refl nd c0 cutY_def 1(2) rec] 1(4) le by simp
  qed
qed

lemma sorted_hd_least:
  "sorted (xs :: int list) \<Longrightarrow> x \<in> set xs \<Longrightarrow> hd xs \<le> x"
  by (cases xs) auto

lemma sorted_last_greatest:
  "sorted (xs :: int list) \<Longrightarrow> x \<in> set xs \<Longrightarrow> x \<le> last xs"
  by (induction xs) auto

lemma uniquePoints_increasing_from_0:
  assumes "0 < cwidth ctx"
  shows "\<exists>points. uniquePoints ctx zones = Some points \<and> sorted_wrt (<) points \<and> hd points = 0
           \<and> int (cheight ctx) \<le> last points"
proof -
  obtain pts where pts: "sliceLoop ctx zones 0 [0] = Some pts" "sorted_wrt (<) pts" "hd pts = 0"
    using sliceLoop_progress[OF assms, of "[0]" 0 zones] by auto
  let ?u = "sort (remdups (pts @ [int (cheight ctx)]))"
  have ne: "pts \<noteq> []" using pts(1) sliceLoop_progress[OF assms, of "[0]" 0 zones] by auto
  have u: "uniquePoints ctx zones = Some ?u" using pts(1) by (simp add: uniquePoints_def)
  have s: "sorted ?u" "distinct ?u" "set ?u = set pts \<union> {int (cheight ctx)}" by simp_all
  have ss: "sorted_wrt (<) ?u" using s(1,2) by (simp add: strict_sorted_iff)
  have une: "?u \<noteq> []" using s(3) by (metis Un_insert_right empty_set insert_not_empty)
  have ge0: "\<forall>x \<in> set ?u. 0 \<le> x"
    using strict_sorted_ge_hd[OF pts(2)] pts(3) s(3) by auto
  have z: "0 \<in> set ?u" using ne pts(3) s(3) hd_in_set[OF ne] by auto
  have "hd ?u \<in> set ?u" using une by (rule hd_in_set)
  then have h: "hd ?u = 0" using ge0 sorted_hd_least[OF s(1) z] by force
  have l: "int (cheight ctx) \<le> last ?u"
    using sorted_last_greatest[OF s(1), of "int (cheight ctx)"] s(3) by simp
  from u ss h l show ?thesis by blast
qed

lemma uniquePoints_ends_at_height:
  assumes "0 < cwidth ctx" "zonesInRange zones"
  shows "\<exists>points. uniquePoints ctx zones = Some points \<and> sorted_wrt (<) points \<and> hd points = 0
           \<and> last points = int (cheight ctx)"
proof -
  obtain pts where pts: "sliceLoop ctx zones 0 [0] = Some pts"
    using sliceLoop_progress[OF assms(1), of "[0]" 0 zones] by auto
  let ?u = "sort (remdups (pts @ [int (cheight ctx)]))"
  obtain points where p: "uniquePoints ctx zones = Some points" "sorted_wrt (<) points"
    "hd points = 0" "int (cheight ctx) \<le> last points"
    using uniquePoints_increasing_from_0[OF assms(1), of zones] by blast
  have pu: "points = ?u" using p(1) pts by (simp add: uniquePoints_def)
  have "\<forall>y \<in> set pts. y \<le> int (cheight ctx)"
    using sliceLoop_within_height[OF assms(2) pts] by simp
  then have le: "\<forall>y \<in> set ?u. y \<le> int (cheight ctx)" by simp
  have "?u \<noteq> []" by (metis Un_insert_right empty_set insert_not_empty set_append set_remdups set_sort list.simps(15))
  then have "last ?u \<in> set ?u" by (rule last_in_set)
  then have "last points \<le> int (cheight ctx)" using le pu by blast
  with p show ?thesis by force
qed

text \<open>
  Claim C4 fails on the code for a hint zone below the image. On an image of height 4096 the
  zone with the fractions 1.03125 and 1.0322265625 is accepted (its midpoint 4226 is within
  1800 of the desired cut 2500), the cut 4226 is pushed, and the finalized list 0, 4096, 4226
  does not end at the image height. The second chunk, of 130 rows, lies wholly outside the
  image.
\<close>

theorem cut_points_end_beyond_height:
  "uniquePoints (plainCanvas 4 4096 128) [zoneBelowImage] = Some [0, 4096, 4226]
   \<and> int (cheight (plainCanvas 4 4096 128)) = 4096
   \<and> map part (generateChunks (plainCanvas 4 4096 128) [0, 4096, 4226]) = [1, 2]
   \<and> map (\<lambda>c. cheight (content c)) (generateChunks (plainCanvas 4 4096 128) [0, 4096, 4226])
       = [4096, 130]"
  by code_simp

text \<open>
  Claim C6 fails on the code. The rows of a hint zone are \<open>Math.floor\<close> of the fraction
  times the image height, and reach \<open>findExactCutInZone\<close> as they are: for the zone above,
  rows 4224 to 4228 of an image of height 4096. The scan reads them as transparent black and
  returns row 4226; an inverted zone with the fractions 1.0625 and 1 returns its start row
  4352. Only the window of the fallback path is clamped to the image.
\<close>

theorem zone_rows_not_clamped:
  "\<lfloor>start_percent zoneBelowImage * 4096\<rfloor> = 4224
   \<and> \<lfloor>end_percent zoneBelowImage * 4096\<rfloor> = 4228
   \<and> int (cheight (plainCanvas 4 4096 128)) = 4096
   \<and> zoneCut (plainCanvas 4 4096 128) [zoneBelowImage] 0 = Some 4226
   \<and> zoneCut (plainCanvas 4 4096 128) [zoneInverted] 0 = Some 4352
   \<and> getImageData (plainCanvas 4 4096 128) 0 4224 4 4 = Some (replicate 64 0)"
  by code_simp

section \<open>Properties of the scheduler\<close>

subsection \<open>Auxiliary facts\<close>

lemma toStartCount_bounds:
  "0 \<le> toStartCount now s"
  "toStartCount now s \<le> int (length (filter (\<lambda>p. status p = Pending) (pages s)))"
  "toStartCount now s \<le> max 0 (CONCURRENCY_LIMIT - int (processingCount (pages s)))"
  "toStartCount now s \<le> max 0 (RPM_LIMIT - int (length (filter (\<lambda>t. now - t < 60000) (requestHistory s))))"
  by (auto simp: toStartCount_def Let_def processingCount_def)

lemma length_filter_mem_sublist:
  assumes "distinct (map f xs)" "set S \<subseteq> set xs" "distinct S"
  shows "length (filter (\<lambda>p. \<exists>q \<in> set S. f q = f p) xs) = length S"
proof -
  have inj: "inj_on f (set xs)" using assms(1) by (simp add: distinct_map)
  have dx: "distinct xs" using assms(1) by (simp add: distinct_map)
  have "{p \<in> set xs. \<exists>q \<in> set S. f q = f p} = set S"
    using inj assms(2) by (auto dest: inj_onD)
  then have "card {p \<in> set xs. \<exists>q \<in> set S. f q = f p} = length S"
    using assms(3) by (simp add: distinct_card)
  moreover have "length (filter (\<lambda>p. \<exists>q \<in> set S. f q = f p) xs) = card {p \<in> set xs. \<exists>q \<in> set S. f q = f p}"
    using dx by (simp add: distinct_length_filter Int_def conj_commute)
  ultimately show ?thesis by simp
qed

lemma ids_processPage_success [simp]: "map page_id (processPage_success page url ps) = map page_id ps"
  by (simp add: processPage_success_def)

lemma ids_processPage_failure [simp]: "map page_id (processPage_failure page ps) = map page_id ps"
  by (simp add: processPage_failure_def)

lemma ids_handleRegenerate [simp]: "map page_id (handleRegenerate pageId ps) = map page_id ps"
  by (simp add: handleRegenerate_def)

lemma ids_scheduler [simp]: "map page_id (pages (scheduler now s)) = map page_id (pages s)"
  by (simp add: scheduler_def Let_def)

lemma ids_step [simp]: "map page_id (pages (step e s)) = map page_id (pages s)"
  by (cases e) (simp_all split: option.splits)

lemma ids_run [simp]: "map page_id (pages (run es s)) = map page_id (pages s)"
  by (induction es arbitrary: s) simp_all

lemma pagesToStart_props:
  "set (pagesToStart now s) \<subseteq> set (pages s)"
  "\<forall>p \<in> set (pagesToStart now s). status p = Pending"
  "length (pagesToStart now s) = nat (toStartCount now s)"
  using toStartCount_bounds(2)[of now s]
  by (auto simp: pagesToStart_def dest: in_set_takeD)

lemma distinct_pagesToStart:
  "distinct (map page_id (pages s)) \<Longrightarrow> distinct (pagesToStart now s)"
  by (simp add: pagesToStart_def distinct_map)

lemma admissions_mark:
  "length (filter (\<lambda>(p, p'). status p = Pending \<and> status p' = Processing)
      (zip ps (map (\<lambda>p. if M p then p\<lparr>status := Processing\<rparr> else p) ps)))
    = length (filter (\<lambda>p. M p \<and> status p = Pending) ps)"
  by (induction ps) auto

lemma started_are_pending:
  assumes "distinct (map page_id (pages s))" "p \<in> set (pages s)"
    "\<exists>start \<in> set (pagesToStart now s). page_id start = page_id p"
  shows "p \<in> set (pagesToStart now s)" "status p = Pending"
proof -
  have inj: "inj_on page_id (set (pages s))" using assms(1) by (simp add: distinct_map)
  from assms(3) obtain q where q: "q \<in> set (pagesToStart now s)" "page_id q = page_id p" by blast
  with pagesToStart_props(1)[of now s] inj assms(2) have "q = p" by (auto dest: inj_onD)
  with q pagesToStart_props(2)[of now s] show "p \<in> set (pagesToStart now s)" "status p = Pending" by auto
qed

lemma admissions_eq:
  assumes "distinct (map page_id (pages s))"
  shows "admissions now s = nat (toStartCount now s)"
proof (cases "toStartCount now s > 0")
  case False
  have "length (filter (\<lambda>(p, p'). status p = Pending \<and> status p' = Processing) (zip ps ps)) = 0" for ps :: "MangaPage list"
    by (induction ps) auto
  with False toStartCount_bounds(1)[of now s] show ?thesis
    by (simp add: admissions_def scheduler_def)
next
  case True
  let ?M = "\<lambda>p. \<exists>start \<in> set (pagesToStart now s). page_id start = page_id p"
  have "filter (\<lambda>p. ?M p \<and> status p = Pending) (pages s) = filter ?M (pages s)"
    by (rule filter_cong) (use started_are_pending(2)[OF assms] in auto)
  moreover have "length (filter ?M (pages s)) = length (pagesToStart now s)"
    by (rule length_filter_mem_sublist[OF assms pagesToStart_props(1) distinct_pagesToStart[OF assms]])
  ultimately show ?thesis using True
    by (simp add: admissions_def scheduler_def Let_def admissions_mark pagesToStart_props(3))
qed

lemma history_scheduler:
  "requestHistory (scheduler now s) = requestHistory s @ replicate (nat (toStartCount now s)) now"
  using toStartCount_bounds(1)[of now s]
  by (auto simp: scheduler_def Let_def)

lemma filter_cleanupHistory:
  "now \<le> now' \<Longrightarrow> filter (\<lambda>t. now' - t < 60000) (cleanupHistory now h) = filter (\<lambda>t. now' - t < 60000) h"
  by (auto simp: cleanupHistory_def Let_def intro: filter_cong)

lemma cleanupHistory_removes_expired:
  "filter (\<lambda>t. now - t < 60000) (cleanupHistory now h) = filter (\<lambda>t. now - t < 60000) h"
  by (rule filter_cleanupHistory) simp

lemma rateInv_tick:
  assumes "rateInv s L c" "c \<le> now"
  shows "rateInv (scheduler now s) (L @ replicate (admissions now s) now) now"
proof -
  have d: "distinct (map page_id (pages s))" using assms(1) by (simp add: rateInv_def)
  have le: "\<forall>t \<in> set L. t \<le> c" using assms(1) by (simp add: rateInv_def)
  have h: "\<And>now'. c \<le> now' \<Longrightarrow> filter (\<lambda>t. now' - t < 60000) (requestHistory s) = filter (\<lambda>t. now' - t < 60000) L"
    using assms(1) by (simp add: rateInv_def)
  have w: "\<And>T. int (length (filter (\<lambda>t. t \<le> T \<and> T - t < 60000) L)) \<le> RPM_LIMIT"
    using assms(1) by (simp add: rateInv_def)
  let ?n = "nat (toStartCount now s)"
  have n: "admissions now s = ?n" by (rule admissions_eq[OF d])
  have d': "distinct (map page_id (pages (scheduler now s)))"
    using d by simp
  have le': "\<forall>t \<in> set (L @ replicate ?n now). t \<le> now" using le assms(2) by auto
  have h': "\<forall>now' \<ge> now. filter (\<lambda>t. now' - t < 60000) (requestHistory (scheduler now s))
            = filter (\<lambda>t. now' - t < 60000) (L @ replicate ?n now)"
    using h assms(2) by (simp add: history_scheduler)
  have w': "int (length (filter (\<lambda>t. t \<le> T \<and> T - t < 60000) (L @ replicate ?n now))) \<le> RPM_LIMIT" for T
  proof (cases "now \<le> T")
    case False
    then show ?thesis using w[of T] by simp
  next
    case True
    have a1: "length (filter (\<lambda>t. t \<le> T \<and> T - t < 60000) L) \<le> length (filter (\<lambda>t. now - t < 60000) L)"
    proof -
      have "filter (\<lambda>t. t \<le> T \<and> T - t < 60000) L = filter (\<lambda>t. t \<le> T \<and> T - t < 60000) (filter (\<lambda>t. now - t < 60000) L)"
        using True by (auto intro: filter_cong)
      then show ?thesis using length_filter_le[of "\<lambda>t. t \<le> T \<and> T - t < 60000" "filter (\<lambda>t. now - t < 60000) L"] by simp
    qed
    have a2: "length (filter (\<lambda>t. now - t < 60000) L) = length (filter (\<lambda>t. now - t < 60000) (requestHistory s))"
      using h[OF assms(2)] by simp
    have a3: "length (filter (\<lambda>t. t \<le> T \<and> T - t < 60000) (replicate ?n now)) \<le> ?n"
      using length_filter_le[of "\<lambda>t. t \<le> T \<and> T - t < 60000" "replicate ?n now"] by (simp del: filter_replicate)
    have a4: "int ?n \<le> max 0 (RPM_LIMIT - int (length (filter (\<lambda>t. now - t < 60000) (requestHistory s))))"
      using toStartCount_bounds(1,4)[of now s] by simp
    have a5: "int (length (filter (\<lambda>t. now - t < 60000) L)) \<le> RPM_LIMIT"
    proof -
      have "filter (\<lambda>t. now - t < 60000) L = filter (\<lambda>t. t \<le> now \<and> now - t < 60000) L"
        using le assms(2) by (auto intro!: filter_cong)
      then show ?thesis using w[of now] by simp
    qed
    have a6: "length (filter (\<lambda>t. t \<le> T \<and> T - t < 60000) (L @ replicate ?n now))
        = length (filter (\<lambda>t. t \<le> T \<and> T - t < 60000) L)
          + length (filter (\<lambda>t. t \<le> T \<and> T - t < 60000) (replicate ?n now))"
      by (simp del: filter_replicate)
    show ?thesis unfolding a6 using a1 a2 a3 a4 a5 by linarith
  qed
  show ?thesis unfolding rateInv_def n using d' le' h' w' by blast
qed

lemma rateInv_cleanup:
  assumes "rateInv s L c" "c \<le> now"
  shows "rateInv (step (Cleanup now) s) L now"
proof -
  have "\<forall>t \<in> set L. t \<le> now" using assms by (auto simp: rateInv_def)
  moreover have "\<forall>now' \<ge> now. filter (\<lambda>t. now' - t < 60000) (cleanupHistory now (requestHistory s))
      = filter (\<lambda>t. now' - t < 60000) L"
    using assms by (simp add: rateInv_def filter_cleanupHistory)
  ultimately show ?thesis using assms(1) by (simp add: rateInv_def)
qed

lemma rateInv_other:
  assumes "rateInv s L c" "eventTimes [e] = []"
  shows "rateInv (step e s) L c"
proof -
  have "requestHistory (step e s) = requestHistory s"
    using assms(2) by (cases e) (auto split: option.splits)
  then show ?thesis using assms(1) unfolding rateInv_def by simp
qed

lemma rateInv_run:
  assumes "rateInv s L c" "sorted (eventTimes es)" "\<forall>t \<in> set (eventTimes es). c \<le> t"
  shows "int (length (filter (\<lambda>t. t \<le> T \<and> T - t < 60000) (L @ admissionLog es s))) \<le> RPM_LIMIT"
  using assms
proof (induction es arbitrary: s L c)
  case Nil
  then show ?case by (simp add: rateInv_def)
next
  case (Cons e es)
  show ?case
  proof (cases e)
    case (Tick now)
    have "rateInv (scheduler now s) (L @ replicate (admissions now s) now) now"
      using Cons.prems Tick by (intro rateInv_tick) auto
    from Cons.IH[OF this] Cons.prems(2) show ?thesis using Tick by simp
  next
    case (Cleanup now)
    have "rateInv (step (Cleanup now) s) L now"
      using Cons.prems Cleanup by (intro rateInv_cleanup) auto
    from Cons.IH[OF this] Cons.prems(2) show ?thesis using Cleanup by simp
  next
    case (Resolved i u)
    have "rateInv (step e s) L c" using Cons.prems(1) Resolved by (intro rateInv_other) auto
    from Cons.IH[OF this] Cons.prems(2,3) show ?thesis using Resolved by simp
  next
    case (Rejected i)
    have "rateInv (step e s) L c" using Cons.prems(1) Rejected by (intro rateInv_other) auto
    from Cons.IH[OF this] Cons.prems(2,3) show ?thesis using Rejected by simp
  next
    case (Regenerate i)
    have "rateInv (step e s) L c" using Cons.prems(1) Regenerate by (intro rateInv_other) auto
    from Cons.IH[OF this] Cons.prems(2,3) show ?thesis using Regenerate by simp
  next
    case KeySelected
    have "rateInv (step e s) L c" using Cons.prems(1) KeySelected by (intro rateInv_other) auto
    from Cons.IH[OF this] Cons.prems(2,3) show ?thesis using KeySelected by simp
  qed
qed

lemma processingCount_success: "processingCount (processPage_success page url ps) \<le> processingCount ps"
  unfolding processingCount_def processPage_success_def
  by (induction ps) auto

lemma processingCount_failure: "processingCount (processPage_failure page ps) \<le> processingCount ps"
  unfolding processingCount_def processPage_failure_def
  by (induction ps) auto

lemma processingCount_regenerate: "processingCount (handleRegenerate pageId ps) \<le> processingCount ps"
  unfolding processingCount_def handleRegenerate_def
  by (induction ps) auto

lemma processingCount_mark:
  assumes "\<forall>p \<in> set ps. M p \<longrightarrow> status p \<noteq> Processing"
  shows "processingCount (map (\<lambda>p. if M p then p\<lparr>status := Processing\<rparr> else p) ps)
           = processingCount ps + length (filter M ps)"
  using assms unfolding processingCount_def
  by (induction ps) auto

lemma processingCount_scheduler:
  assumes "distinct (map page_id (pages s))"
  shows "processingCount (pages (scheduler now s)) = processingCount (pages s) + nat (toStartCount now s)"
proof (cases "toStartCount now s > 0")
  case False
  then show ?thesis by (simp add: scheduler_def)
next
  case True
  let ?M = "\<lambda>p. \<exists>start \<in> set (pagesToStart now s). page_id start = page_id p"
  have inj: "inj_on page_id (set (pages s))" using assms by (simp add: distinct_map)
  have "\<forall>p \<in> set (pages s). ?M p \<longrightarrow> status p \<noteq> Processing"
  proof (intro ballI impI)
    fix p assume p: "p \<in> set (pages s)" and "?M p"
    then obtain q where q: "q \<in> set (pagesToStart now s)" "page_id q = page_id p" by blast
    with pagesToStart_props(1)[of now s] inj p have "q = p" by (auto dest: inj_onD)
    with q pagesToStart_props(2)[of now s] show "status p \<noteq> Processing" by auto
  qed
  then have "processingCount (map (\<lambda>p. if ?M p then p\<lparr>status := Processing\<rparr> else p) (pages s))
      = processingCount (pages s) + length (filter ?M (pages s))"
    by (rule processingCount_mark)
  moreover have "length (filter ?M (pages s)) = length (pagesToStart now s)"
    by (rule length_filter_mem_sublist[OF assms pagesToStart_props(1) distinct_pagesToStart[OF assms]])
  ultimately show ?thesis using True
    by (simp add: scheduler_def Let_def pagesToStart_props(3))
qed

lemma processingCount_step_other:
  "\<not> (\<exists>now. e = Tick now) \<Longrightarrow> processingCount (pages (step e s)) \<le> processingCount (pages s)"
  by (cases e) (auto split: option.splits
      intro: processingCount_success processingCount_failure processingCount_regenerate)

lemma scheduler_within_ceiling:
  assumes "distinct (map page_id (pages s))" "int (processingCount (pages s)) \<le> CONCURRENCY_LIMIT"
  shows "int (processingCount (pages (scheduler now s))) \<le> CONCURRENCY_LIMIT"
  using processingCount_scheduler[OF assms(1), of now] toStartCount_bounds(1,3)[of now s] assms(2)
  by auto

lemma step_within_ceiling:
  assumes "distinct (map page_id (pages s))" "int (processingCount (pages s)) \<le> CONCURRENCY_LIMIT"
  shows "int (processingCount (pages (step e s))) \<le> CONCURRENCY_LIMIT"
proof (cases "\<exists>now. e = Tick now")
  case True
  then show ?thesis using scheduler_within_ceiling[OF assms] by auto
next
  case False
  from processingCount_step_other[OF this, of s] assms(2) show ?thesis by linarith
qed

lemma run_within_ceiling:
  assumes "distinct (map page_id (pages s))" "int (processingCount (pages s)) \<le> CONCURRENCY_LIMIT"
  shows "int (processingCount (pages (run es s))) \<le> CONCURRENCY_LIMIT"
  using assms
proof (induction es arbitrary: s)
  case Nil
  then show ?case by simp
next
  case (Cons e es)
  show ?case
    using Cons.IH[of "step e s"] step_within_ceiling[OF Cons.prems] Cons.prems(1)
    by simp
qed

lemma initial_processingCount: "initial s \<Longrightarrow> processingCount (pages s) = 0"
  by (auto simp: initial_def processingCount_def list_all_iff filter_empty_conv)

lemma callInv_initial: "initial s \<Longrightarrow> callInv s"
  by (auto simp: initial_def callInv_def list_all_iff)

lemma processing_ids_mark:
  "map page_id (filter (\<lambda>p. status p = Processing)
      (map (\<lambda>p. if M p then p\<lparr>status := Processing\<rparr> else p) ps))
   = map page_id (filter (\<lambda>p. M p \<or> status p = Processing) ps)"
  by (induction ps) auto

lemma processing_ids_success:
  "map page_id (filter (\<lambda>p. status p = Processing) (processPage_success c url ps))
   = map page_id (filter (\<lambda>p. status p = Processing \<and> page_id p \<noteq> page_id c) ps)"
  unfolding processPage_success_def by (induction ps) auto

lemma processing_ids_failure:
  "map page_id (filter (\<lambda>p. status p = Processing) (processPage_failure c ps))
   = map page_id (filter (\<lambda>p. status p = Processing \<and> page_id p \<noteq> page_id c) ps)"
  unfolding processPage_failure_def by (induction ps) auto

lemma processing_ids_regenerate:
  "map page_id (filter (\<lambda>p. status p = Processing) (handleRegenerate i ps))
   = map page_id (filter (\<lambda>p. status p = Processing \<and> page_id p \<noteq> i) ps)"
  unfolding handleRegenerate_def by (induction ps) auto

lemma ids_remove1:
  assumes "distinct (map f xs)" "x \<in> set xs"
  shows "set (map f (remove1 x xs)) = set (map f xs) - {f x}" "distinct (map f (remove1 x xs))"
  using assms by (induction xs) auto

lemma callInv_tick:
  assumes "callInv s"
  shows "callInv (scheduler now s)"
proof (cases "toStartCount now s > 0")
  case False
  then show ?thesis using assms by (simp add: scheduler_def)
next
  case True
  have d: "distinct (map page_id (pages s))" using assms by (simp add: callInv_def)
  have di: "distinct (map page_id (inflight s))" using assms by (simp add: callInv_def)
  have eq: "set (map page_id (inflight s)) = set (map page_id (filter (\<lambda>p. status p = Processing) (pages s)))"
    using assms by (simp add: callInv_def)
  have inj: "inj_on page_id (set (pages s))" using d by (simp add: distinct_map)
  let ?S = "pagesToStart now s"
  let ?M = "\<lambda>p. \<exists>start \<in> set ?S. page_id start = page_id p"
  let ?ps' = "map (\<lambda>p. if ?M p then p\<lparr>status := Processing\<rparr> else p) (pages s)"
  have st: "pages (scheduler now s) = ?ps'" "inflight (scheduler now s) = inflight s @ ?S"
    using True by (simp_all add: scheduler_def Let_def)
  have sub: "set ?S \<subseteq> set (pages s)" by (rule pagesToStart_props(1))
  have pend: "\<forall>p \<in> set ?S. status p = Pending" by (rule pagesToStart_props(2))
  have dS: "distinct (map page_id ?S)"
    using d unfolding pagesToStart_def take_map[symmetric]
    by (intro distinct_take distinct_map_filter)
  have disj: "set (map page_id (inflight s)) \<inter> set (map page_id ?S) = {}"
  proof (rule ccontr)
    assume "set (map page_id (inflight s)) \<inter> set (map page_id ?S) \<noteq> {}"
    then obtain i where i: "i \<in> set (map page_id (inflight s))" "i \<in> set (map page_id ?S)" by blast
    from i(2) obtain q where q: "q \<in> set ?S" "i = page_id q" by auto
    from i(1) eq obtain p where p: "p \<in> set (pages s)" "status p = Processing" "page_id p = i" by auto
    from inj sub q p have "p = q" by (auto dest: inj_onD)
    with p(2) pend q(1) show False by auto
  qed
  have m: "set (map page_id (filter ?M (pages s))) = set (map page_id ?S)"
  proof (intro equalityI subsetI)
    fix i assume "i \<in> set (map page_id (filter ?M (pages s)))"
    then have "i \<in> page_id ` set (filter ?M (pages s))" by (simp only: set_map)
    then obtain p where p0: "i = page_id p" "p \<in> set (filter ?M (pages s))" by (rule imageE)
    then have p: "?M p" "i = page_id p" by simp_all
    from p(1) obtain q where "q \<in> set ?S" "page_id q = page_id p" by blast
    with p(2) have "i = page_id q" by simp
    with \<open>q \<in> set ?S\<close> show "i \<in> set (map page_id ?S)" by simp
  next
    fix i assume "i \<in> set (map page_id ?S)"
    then obtain q where q: "q \<in> set ?S" "i = page_id q" by auto
    with sub have "q \<in> set (pages s)" "?M q" by auto
    then have "q \<in> set (filter ?M (pages s))" by simp
    with q(2) show "i \<in> set (map page_id (filter ?M (pages s)))" by (simp only: set_map) (rule imageI)
  qed
  have "set (map page_id (filter (\<lambda>p. status p = Processing) ?ps'))
      = set (map page_id (filter (\<lambda>p. status p = Processing) (pages s))) \<union> set (map page_id ?S)"
    unfolding processing_ids_mark m[symmetric] by auto
  then have "set (map page_id (inflight s @ ?S)) = set (map page_id (filter (\<lambda>p. status p = Processing) ?ps'))"
    using eq by simp
  moreover have "distinct (map page_id (inflight s @ ?S))" using di dS disj by simp
  moreover have "distinct (map page_id ?ps')" using d by (simp add: comp_def if_distrib cong: if_cong)
  ultimately show ?thesis unfolding callInv_def st by blast
qed

lemma callInv_settle:
  assumes "callInv s" "find (\<lambda>c. page_id c = i) (inflight s) = Some c"
    "ps' = processPage_success c url (pages s) \<or> ps' = processPage_failure c (pages s)"
  shows "callInv (s\<lparr>pages := ps', inflight := remove1 c (inflight s)\<rparr>)"
proof -
  have c: "c \<in> set (inflight s)" using assms(2) by (auto simp: find_Some_iff)
  have di: "distinct (map page_id (inflight s))" using assms(1) by (simp add: callInv_def)
  have eq: "set (map page_id (inflight s)) = set (map page_id (filter (\<lambda>p. status p = Processing) (pages s)))"
    using assms(1) by (simp add: callInv_def)
  have "map page_id (filter (\<lambda>p. status p = Processing) ps')
      = map page_id (filter (\<lambda>p. status p = Processing \<and> page_id p \<noteq> page_id c) (pages s))"
    using assms(3) by (auto simp: processing_ids_success processing_ids_failure)
  then have "set (map page_id (filter (\<lambda>p. status p = Processing) ps'))
      = set (map page_id (filter (\<lambda>p. status p = Processing) (pages s))) - {page_id c}"
    by auto
  moreover have "map page_id ps' = map page_id (pages s)" using assms(3) by auto
  ultimately show ?thesis
    using assms(1) ids_remove1[OF di c] eq by (simp add: callInv_def)
qed

lemma callInv_regenerate:
  assumes "callInv s" "enabled (Regenerate i) s"
  shows "callInv (step (Regenerate i) s)"
proof -
  have d: "distinct (map page_id (pages s))" using assms(1) by (simp add: callInv_def)
  then have inj: "inj_on page_id (set (pages s))" by (simp add: distinct_map)
  from assms(2) obtain q where q: "q \<in> set (pages s)" "page_id q = i" "regenerateOffered q"
    by (auto simp: list_ex_iff)
  have "filter (\<lambda>p. status p = Processing \<and> page_id p \<noteq> i) (pages s)
      = filter (\<lambda>p. status p = Processing) (pages s)"
  proof (rule filter_cong[OF refl])
    fix p assume p: "p \<in> set (pages s)"
    show "(status p = Processing \<and> page_id p \<noteq> i) = (status p = Processing)"
    proof (cases "page_id p = i")
      case True
      with inj p q have "p = q" by (auto dest: inj_onD)
      with q(3) show ?thesis by (auto simp: regenerateOffered_def)
    next
      case False
      then show ?thesis by simp
    qed
  qed
  then show ?thesis using assms(1) by (simp add: callInv_def processing_ids_regenerate)
qed

lemma callInv_step:
  assumes "callInv s" "enabled e s"
  shows "callInv (step e s)"
proof (cases e)
  case (Tick now)
  then show ?thesis using callInv_tick[OF assms(1)] by simp
next
  case (Cleanup now)
  then show ?thesis using assms(1) by (simp add: callInv_def)
next
  case (Resolved i url)
  then show ?thesis using assms(1) callInv_settle[OF assms(1)]
    by (auto split: option.splits)
next
  case (Rejected i)
  then show ?thesis using assms(1) callInv_settle[OF assms(1)]
    by (auto split: option.splits)
next
  case (Regenerate i)
  then show ?thesis using callInv_regenerate assms by simp
next
  case KeySelected
  then show ?thesis using assms(1) by (simp add: callInv_def)
qed

lemma callInv_run:
  assumes "callInv s" "feasible es s"
  shows "callInv (run es s)"
  using assms
  by (induction es arbitrary: s) (auto intro: callInv_step)

lemma callInv_no_call_when_offered:
  assumes "callInv s" "enabled (Regenerate i) s"
  shows "i \<notin> set (map page_id (inflight s))"
proof
  assume "i \<in> set (map page_id (inflight s))"
  with assms(1) obtain p where p: "p \<in> set (pages s)" "status p = Processing" "page_id p = i"
    by (auto simp: callInv_def)
  from assms(2) obtain q where q: "q \<in> set (pages s)" "page_id q = i" "regenerateOffered q"
    by (auto simp: list_ex_iff)
  have "inj_on page_id (set (pages s))" using assms(1) by (simp add: callInv_def distinct_map)
  with p q have "p = q" by (auto dest: inj_onD)
  with p(2) q(3) show False by (auto simp: regenerateOffered_def)
qed

subsection \<open>The concurrency ceiling\<close>

text \<open>
  Claim C2. In every state reached from a pool of Pending items (with pairwise distinct ids)
  by any sequence of events, at most \<open>CONCURRENCY_LIMIT\<close> = 5 items are Processing. A run
  of the scheduler effect raises the number of Processing items by exactly the number of
  items it admits, which is at most the ceiling minus the current number of Processing
  items, and no other event raises it.
\<close>

theorem scheduler_concurrency_ceiling:
  assumes "initial s0"
  shows "int (processingCount (pages (run es s0))) \<le> CONCURRENCY_LIMIT
       \<and> (\<forall>now. processingCount (pages (step (Tick now) (run es s0)))
                  = processingCount (pages (run es s0)) + admissions now (run es s0)
               \<and> int (admissions now (run es s0))
                  \<le> CONCURRENCY_LIMIT - int (processingCount (pages (run es s0))))
       \<and> (\<forall>e. (\<forall>now. e \<noteq> Tick now) \<longrightarrow>
               processingCount (pages (step e (run es s0))) \<le> processingCount (pages (run es s0)))"
proof -
  let ?s = "run es s0"
  have d0: "distinct (map page_id (pages s0))" using assms(1) by (simp add: initial_def)
  have d: "distinct (map page_id (pages ?s))" using d0 by simp
  have c: "int (processingCount (pages ?s)) \<le> CONCURRENCY_LIMIT"
    using run_within_ceiling[OF d0, of es] initial_processingCount[OF assms(1)]
    by (simp add: CONCURRENCY_LIMIT_def)
  have t: "processingCount (pages (step (Tick now) ?s)) = processingCount (pages ?s) + admissions now ?s
      \<and> int (admissions now ?s) \<le> CONCURRENCY_LIMIT - int (processingCount (pages ?s))" for now
    using processingCount_scheduler[OF d, of now] admissions_eq[OF d, of now]
      toStartCount_bounds(1,3)[of now ?s] c
    by simp
  have o: "(\<forall>now. e \<noteq> Tick now) \<longrightarrow> processingCount (pages (step e ?s)) \<le> processingCount (pages ?s)" for e
    using processingCount_step_other[of e ?s] by blast
  from c t o show ?thesis by blast
qed

text \<open>
  An instance: seven items; the first run of the effect admits five, one call settles, and
  the next run admits one more, which brings the number of Processing items back to five. A
  regenerate of the settled item does not raise the number.
\<close>

theorem scheduler_concurrency_ceiling_witness:
  "initial (examplePool [''a'', ''b'', ''c'', ''d'', ''e'', ''f'', ''g''])
   \<and> processingCount (pages (run [Tick 0, Resolved ''b'' ''u'', Tick 1]
        (examplePool [''a'', ''b'', ''c'', ''d'', ''e'', ''f'', ''g'']))) = 5
   \<and> processingCount (pages (step (Regenerate ''b'') (run [Tick 0, Resolved ''b'' ''u'']
        (examplePool [''a'', ''b'', ''c'', ''d'', ''e'', ''f'', ''g'']))))
       \<le> processingCount (pages (run [Tick 0, Resolved ''b'' ''u'']
        (examplePool [''a'', ''b'', ''c'', ''d'', ''e'', ''f'', ''g''])))"
proof -
  have i: "initial (examplePool [''a'', ''b'', ''c'', ''d'', ''e'', ''f'', ''g''])"
    by code_simp
  have "int (processingCount (pages (run [Tick 0, Resolved ''b'' ''u'', Tick 1]
        (examplePool [''a'', ''b'', ''c'', ''d'', ''e'', ''f'', ''g''])))) \<le> CONCURRENCY_LIMIT"
    using scheduler_concurrency_ceiling[OF i, of "[Tick 0, Resolved ''b'' ''u'', Tick 1]"] by blast
  moreover have "processingCount (pages (run [Tick 0, Resolved ''b'' ''u'', Tick 1]
        (examplePool [''a'', ''b'', ''c'', ''d'', ''e'', ''f'', ''g'']))) \<ge> 5"
    by code_simp
  ultimately have a: "processingCount (pages (run [Tick 0, Resolved ''b'' ''u'', Tick 1]
        (examplePool [''a'', ''b'', ''c'', ''d'', ''e'', ''f'', ''g'']))) = 5"
    by (simp add: CONCURRENCY_LIMIT_def)
  have "\<forall>now. Regenerate ''b'' \<noteq> Tick now" by simp
  then have b: "processingCount (pages (step (Regenerate ''b'') (run [Tick 0, Resolved ''b'' ''u'']
        (examplePool [''a'', ''b'', ''c'', ''d'', ''e'', ''f'', ''g'']))))
       \<le> processingCount (pages (run [Tick 0, Resolved ''b'' ''u'']
        (examplePool [''a'', ''b'', ''c'', ''d'', ''e'', ''f'', ''g''])))"
    using scheduler_concurrency_ceiling[OF i, of "[Tick 0, Resolved ''b'' ''u'']"] by blast
  from i a b show ?thesis by (intro conjI)
qed

subsection \<open>The rate window\<close>

text \<open>
  Claim C3. Along every run from a pool of Pending items with an empty request history, in
  which the clock values read by the events do not decrease, every window of 60000
  milliseconds that ends at any time \<open>T\<close> holds at most \<open>RPM_LIMIT\<close> = 20 admissions. A run
  of the scheduler effect admits at most the limit minus the number of recorded timestamps
  \<open>t\<close> with \<open>now - t < 60000\<close> (at least 0), it appends one timestamp per admission, and the
  clean-up keeps every timestamp that is still inside the window.
\<close>

theorem scheduler_rate_window:
  assumes "initial s0" and "sorted (eventTimes es)"
  shows "(\<forall>T. int (length (filter (\<lambda>t. t \<le> T \<and> T - t < 60000) (admissionLog es s0))) \<le> RPM_LIMIT)
       \<and> (\<forall>now. int (admissions now (run es s0))
                 \<le> max 0 (RPM_LIMIT - int (length (filter (\<lambda>t. now - t < 60000)
                                                     (requestHistory (run es s0)))))
               \<and> requestHistory (scheduler now (run es s0))
                 = requestHistory (run es s0) @ replicate (admissions now (run es s0)) now)
       \<and> (\<forall>now h. filter (\<lambda>t. now - t < 60000) (cleanupHistory now h)
                 = filter (\<lambda>t. now - t < 60000) h)"
proof -
  let ?s = "run es s0"
  have d0: "distinct (map page_id (pages s0))" using assms(1) by (simp add: initial_def)
  have d: "distinct (map page_id (pages ?s))" using d0 by simp
  obtain c where c: "\<forall>t \<in> set (eventTimes es). c \<le> t"
  proof (cases "eventTimes es")
    case Nil
    then show ?thesis using that[of 0] by simp
  next
    case (Cons x xs)
    then show ?thesis using that[of x] assms(2) by auto
  qed
  have "rateInv s0 [] c"
    using assms(1) by (simp add: rateInv_def initial_def RPM_LIMIT_def)
  from rateInv_run[OF this assms(2) c]
  have w: "\<forall>T. int (length (filter (\<lambda>t. t \<le> T \<and> T - t < 60000) (admissionLog es s0))) \<le> RPM_LIMIT"
    by simp
  have t: "int (admissions now ?s)
        \<le> max 0 (RPM_LIMIT - int (length (filter (\<lambda>t. now - t < 60000) (requestHistory ?s))))
      \<and> requestHistory (scheduler now ?s) = requestHistory ?s @ replicate (admissions now ?s) now" for now
    using admissions_eq[OF d, of now] toStartCount_bounds(1,4)[of now ?s] history_scheduler[of now ?s]
    by simp
  from w t cleanupHistory_removes_expired show ?thesis by blast
qed

text \<open>
  An instance: the run over 25 items that exhausts the limit. The window that ends at time 3
  holds exactly 20 admissions, the run of the effect at time 4 admits nothing, and five more
  items are admitted at time 60001.
\<close>

theorem scheduler_rate_window_witness:
  "initial (examplePool (exampleIds 1 26)) \<and> sorted (eventTimes busyRun)
   \<and> admissionLog busyRun (examplePool (exampleIds 1 26))
       = replicate 5 0 @ replicate 5 1 @ replicate 5 2 @ replicate 5 3 @ replicate 5 60001
   \<and> int (length (filter (\<lambda>t. t \<le> 3 \<and> 3 - t < 60000)
         (admissionLog busyRun (examplePool (exampleIds 1 26))))) \<le> RPM_LIMIT
   \<and> length (filter (\<lambda>t. t \<le> 3 \<and> 3 - t < 60000)
         (admissionLog busyRun (examplePool (exampleIds 1 26)))) = 20"
proof -
  have i: "initial (examplePool (exampleIds 1 26))"
    by code_simp
  have s: "sorted (eventTimes busyRun)"
    by code_simp
  have l: "admissionLog busyRun (examplePool (exampleIds 1 26))
       = replicate 5 0 @ replicate 5 1 @ replicate 5 2 @ replicate 5 3 @ replicate 5 60001"
    by code_simp
  have w: "int (length (filter (\<lambda>t. t \<le> 3 \<and> 3 - t < 60000)
         (admissionLog busyRun (examplePool (exampleIds 1 26))))) \<le> RPM_LIMIT"
    using scheduler_rate_window[OF i s] by blast
  have e: "length (filter (\<lambda>t. t \<le> 3 \<and> 3 - t < 60000)
         (admissionLog busyRun (examplePool (exampleIds 1 26)))) = 20"
    unfolding l by simp
  show ?thesis using i s l w e by (intro conjI)
qed

subsection \<open>Updates touch only the items they name\<close>

text \<open>
  Claim C10. The state updates of a worker success, a worker failure and a regenerate leave
  every item whose id differs from the id they name as it was, and a run of the scheduler
  effect leaves every item whose id is not the id of a page it starts as it was. None of them
  changes the number or the order of the items.
\<close>

theorem updates_leave_other_items:
  "(\<forall>i < length ps. page_id (ps ! i) \<noteq> page_id page \<longrightarrow>
       processPage_success page url ps ! i = ps ! i)
   \<and> (\<forall>i < length ps. page_id (ps ! i) \<noteq> page_id page \<longrightarrow>
       processPage_failure page ps ! i = ps ! i)
   \<and> (\<forall>i < length ps. page_id (ps ! i) \<noteq> pageId \<longrightarrow>
       handleRegenerate pageId ps ! i = ps ! i)
   \<and> (\<forall>i < length (pages s). (\<forall>start \<in> set (pagesToStart now s). page_id start \<noteq> page_id (pages s ! i)) \<longrightarrow>
       pages (scheduler now s) ! i = pages s ! i)
   \<and> length (processPage_success page url ps) = length ps
   \<and> length (processPage_failure page ps) = length ps
   \<and> length (handleRegenerate pageId ps) = length ps
   \<and> length (pages (scheduler now s)) = length (pages s)"
proof -
  have a: "\<forall>i < length ps. page_id (ps ! i) \<noteq> page_id page \<longrightarrow>
       processPage_success page url ps ! i = ps ! i"
    by (simp add: processPage_success_def)
  have b: "\<forall>i < length ps. page_id (ps ! i) \<noteq> page_id page \<longrightarrow>
       processPage_failure page ps ! i = ps ! i"
    by (simp add: processPage_failure_def)
  have c: "\<forall>i < length ps. page_id (ps ! i) \<noteq> pageId \<longrightarrow>
       handleRegenerate pageId ps ! i = ps ! i"
    by (simp add: handleRegenerate_def)
  have d: "\<forall>i < length (pages s). (\<forall>start \<in> set (pagesToStart now s). page_id start \<noteq> page_id (pages s ! i)) \<longrightarrow>
       pages (scheduler now s) ! i = pages s ! i"
    by (auto simp: scheduler_def Let_def)
  have e: "length (processPage_success page url ps) = length ps"
    "length (processPage_failure page ps) = length ps"
    "length (handleRegenerate pageId ps) = length ps"
    "length (pages (scheduler now s)) = length (pages s)"
    by (simp_all add: processPage_success_def processPage_failure_def handleRegenerate_def
        scheduler_def Let_def)
  from a b c d e show ?thesis by blast
qed

text \<open>
  Instances: an update that names the second of two items leaves the first as it was, and a
  run of the effect over six items starts five and leaves the sixth as it was.
\<close>

theorem updates_leave_other_items_witness:
  "handleRegenerate ''b'' (map examplePage [''a'', ''b'']) ! 0 = map examplePage [''a'', ''b''] ! 0
   \<and> processPage_success (examplePage ''b'') ''u'' (map examplePage [''a'', ''b'']) ! 0
       = map examplePage [''a'', ''b''] ! 0
   \<and> processPage_failure (examplePage ''b'') (map examplePage [''a'', ''b'']) ! 0
       = map examplePage [''a'', ''b''] ! 0
   \<and> pages (scheduler 0 (examplePool [''a'', ''b'', ''c'', ''d'', ''e'', ''f''])) ! 5
       = pages (examplePool [''a'', ''b'', ''c'', ''d'', ''e'', ''f'']) ! 5
   \<and> status (handleRegenerate ''b'' (map examplePage [''a'', ''b'']) ! 1) = Pending
   \<and> status (pages (scheduler 0 (examplePool [''a'', ''b'', ''c'', ''d'', ''e'', ''f''])) ! 4)
       = Processing"
proof -
  let ?ps = "map examplePage [''a'', ''b'']"
  let ?s = "examplePool [''a'', ''b'', ''c'', ''d'', ''e'', ''f'']"
  have l: "0 < length ?ps" "page_id (?ps ! 0) \<noteq> ''b''"
    "page_id (?ps ! 0) \<noteq> page_id (examplePage ''b'')"
    by code_simp+
  have t: "5 < length (pages ?s)"
    "\<forall>start \<in> set (pagesToStart 0 ?s). page_id start \<noteq> page_id (pages ?s ! 5)"
    by code_simp+
  have a: "handleRegenerate ''b'' ?ps ! 0 = ?ps ! 0"
    using updates_leave_other_items[of ?ps "examplePage ''b''" "''u''" "''b''" ?s 0] l by blast
  have b: "processPage_success (examplePage ''b'') ''u'' ?ps ! 0 = ?ps ! 0"
    using updates_leave_other_items[of ?ps "examplePage ''b''" "''u''" "''b''" ?s 0] l by blast
  have c: "processPage_failure (examplePage ''b'') ?ps ! 0 = ?ps ! 0"
    using updates_leave_other_items[of ?ps "examplePage ''b''" "''u''" "''b''" ?s 0] l by blast
  have d: "pages (scheduler 0 ?s) ! 5 = pages ?s ! 5"
    using updates_leave_other_items[of ?ps "examplePage ''b''" "''u''" "''b''" ?s 0] t by blast
  have e: "status (handleRegenerate ''b'' ?ps ! 1) = Pending"
    "status (pages (scheduler 0 ?s) ! 4) = Processing"
    by code_simp+
  from a b c d e show ?thesis by (intro conjI)
qed

subsection \<open>Settlings after a regenerate\<close>

lemma run_append: "run (es @ es') s = run es' (run es s)"
  by (induction es arbitrary: s) simp_all

lemma feasible_append: "feasible (es @ es') s \<longleftrightarrow> feasible es s \<and> feasible es' (run es s)"
  by (induction es arbitrary: s) auto

lemma list_all_map_preserved:
  assumes "list_all Q ps" "\<And>p. Q p \<Longrightarrow> Q (f p)"
  shows "list_all Q (map f ps)"
  using assms by (induction ps) simp_all

lemma resetItem_regenerate: "resetItem pageId (step (Regenerate pageId) s)"
proof -
  have "list_all (\<lambda>p. page_id p = pageId \<longrightarrow> status p = Pending \<and> translatedUrl p = None)
      (handleRegenerate pageId ps)" for ps
    unfolding handleRegenerate_def by (induction ps) simp_all
  then show ?thesis by (simp add: resetItem_def)
qed

lemma resetItem_not_outstanding:
  assumes "callInv s" "resetItem pageId s"
  shows "pageId \<notin> set (map page_id (inflight s))"
proof
  assume "pageId \<in> set (map page_id (inflight s))"
  then have "pageId \<in> set (map page_id (filter (\<lambda>p. status p = Processing) (pages s)))"
    using assms(1) by (simp only: callInv_def)
  then have "pageId \<in> page_id ` set (filter (\<lambda>p. status p = Processing) (pages s))"
    by (simp only: set_map)
  then obtain p where p: "pageId = page_id p" "p \<in> set (filter (\<lambda>p. status p = Processing) (pages s))"
    by (rule imageE)
  then have "p \<in> set (pages s)" "status p = Processing" by simp_all
  with assms(2) p(1) show False by (simp add: resetItem_def list_all_iff)
qed

lemma resetItem_settle:
  assumes "callInv s" "resetItem pageId s" "find (\<lambda>c. page_id c = i) (inflight s) = Some c"
  shows "resetItem pageId (s\<lparr>pages := processPage_success c url (pages s), inflight := remove1 c (inflight s)\<rparr>)"
    "resetItem pageId (s\<lparr>pages := processPage_failure c (pages s), inflight := remove1 c (inflight s)\<rparr>)"
proof -
  have "c \<in> set (inflight s)" using assms(3) by (auto simp: find_Some_iff)
  then have "page_id c \<in> page_id ` set (inflight s)" by (rule imageI)
  then have "page_id c \<in> set (map page_id (inflight s))" by (simp only: set_map)
  then have ne: "page_id c \<noteq> pageId" using resetItem_not_outstanding[OF assms(1,2)] by blast
  have q: "list_all (\<lambda>p. page_id p = pageId \<longrightarrow> status p = Pending \<and> translatedUrl p = None) (pages s)"
    using assms(2) by (simp only: resetItem_def)
  have "list_all (\<lambda>p. page_id p = pageId \<longrightarrow> status p = Pending \<and> translatedUrl p = None)
      (processPage_success c url (pages s))"
    unfolding processPage_success_def
    by (rule list_all_map_preserved[OF q]) (use ne in simp)
  then show "resetItem pageId (s\<lparr>pages := processPage_success c url (pages s), inflight := remove1 c (inflight s)\<rparr>)"
    by (simp add: resetItem_def)
  have "list_all (\<lambda>p. page_id p = pageId \<longrightarrow> status p = Pending \<and> translatedUrl p = None)
      (processPage_failure c (pages s))"
    unfolding processPage_failure_def
    by (rule list_all_map_preserved[OF q]) (use ne in simp)
  then show "resetItem pageId (s\<lparr>pages := processPage_failure c (pages s), inflight := remove1 c (inflight s)\<rparr>)"
    by (simp add: resetItem_def)
qed

lemma resetItem_tick:
  assumes "resetItem pageId s" "list_all (\<lambda>start. page_id start \<noteq> pageId) (pagesToStart now s)"
  shows "resetItem pageId (scheduler now s)"
proof (cases "toStartCount now s > 0")
  case False
  then show ?thesis using assms(1) by (simp add: scheduler_def)
next
  case True
  have q: "list_all (\<lambda>p. page_id p = pageId \<longrightarrow> status p = Pending \<and> translatedUrl p = None) (pages s)"
    using assms(1) by (simp only: resetItem_def)
  have n: "\<And>start. start \<in> set (pagesToStart now s) \<Longrightarrow> page_id start \<noteq> pageId"
    using assms(2) by (simp add: list_all_iff)
  have "list_all (\<lambda>p. page_id p = pageId \<longrightarrow> status p = Pending \<and> translatedUrl p = None)
      (map (\<lambda>p. if \<exists>start \<in> set (pagesToStart now s). page_id start = page_id p
                   then p\<lparr>status := Processing\<rparr> else p) (pages s))"
    by (rule list_all_map_preserved[OF q]) (use n in auto)
  then show ?thesis using True by (simp add: scheduler_def Let_def resetItem_def)
qed

lemma resetItem_step:
  assumes "callInv s" "resetItem pageId s" "neverStarted pageId [e] s"
  shows "resetItem pageId (step e s)"
proof (cases e)
  case (Tick now)
  then show ?thesis using assms(2,3) resetItem_tick by simp
next
  case (Cleanup now)
  then show ?thesis using assms(2) by (simp add: resetItem_def)
next
  case (Resolved i url)
  then show ?thesis using assms(2) resetItem_settle(1)[OF assms(1,2)]
    by (auto split: option.splits)
next
  case (Rejected i)
  then show ?thesis using assms(2) resetItem_settle(2)[OF assms(1,2)]
    by (auto split: option.splits)
next
  case (Regenerate i)
  have q: "list_all (\<lambda>p. page_id p = pageId \<longrightarrow> status p = Pending \<and> translatedUrl p = None) (pages s)"
    using assms(2) by (simp only: resetItem_def)
  have "list_all (\<lambda>p. page_id p = pageId \<longrightarrow> status p = Pending \<and> translatedUrl p = None)
      (handleRegenerate i (pages s))"
    unfolding handleRegenerate_def
    by (rule list_all_map_preserved[OF q]) simp
  then show ?thesis using Regenerate by (simp add: resetItem_def)
next
  case KeySelected
  then show ?thesis using assms(2) by (simp add: resetItem_def)
qed

lemma neverStarted_Cons:
  "neverStarted pageId (e # es) s \<longleftrightarrow> neverStarted pageId [e] s \<and> neverStarted pageId es (step e s)"
  by (cases e) simp_all

lemma resetItem_run:
  assumes "callInv s" "resetItem pageId s" "feasible es s" "neverStarted pageId es s"
  shows "resetItem pageId (run es s)"
  using assms
proof (induction es arbitrary: s)
  case Nil
  then show ?case by simp
next
  case (Cons e es)
  have n: "neverStarted pageId [e] s" "neverStarted pageId es (step e s)"
    using Cons.prems(4) neverStarted_Cons[of pageId e es s] by simp_all
  have f: "enabled e s" "feasible es (step e s)" using Cons.prems(3) by simp_all
  have "resetItem pageId (run es (step e s))"
    by (rule Cons.IH[OF callInv_step[OF Cons.prems(1) f(1)]
          resetItem_step[OF Cons.prems(1,2) n(1)] f(2) n(2)])
  then show ?case by simp
qed


text \<open>
  Claim C1. Take any run from a pool of Pending items with distinct ids in which every
  regenerate comes from a rendered button (the item is Completed with a result, or Error) and
  every settling is that of an outstanding call, and take any regenerate in it. The item it
  resets exists, and no call started for it is outstanding at the reset, before or after it:
  no outcome of a call dispatched before the reset remains to arrive. From the reset on, as
  long as no run of the scheduler effect starts the item again, every item with that id stays
  Pending without a result, whatever settles in between. At every moment the outstanding
  calls are exactly those of the Processing items, one call each, so a settling only ever
  reaches an item in the attempt that dispatched it. The code keeps no generation counter;
  the property rests on where the buttons are rendered.
\<close>

theorem stale_resolution_never_applied:
  assumes "initial s0" and "feasible (es @ Regenerate pageId # es') s0"
  shows "pageId \<in> set (map page_id (pages (run es s0)))
       \<and> pageId \<notin> set (map page_id (inflight (run es s0)))
       \<and> pageId \<notin> set (map page_id (inflight (step (Regenerate pageId) (run es s0))))
       \<and> (neverStarted pageId es' (step (Regenerate pageId) (run es s0)) \<longrightarrow>
            list_all (\<lambda>p. page_id p = pageId \<longrightarrow> status p = Pending \<and> translatedUrl p = None)
              (pages (run (es @ Regenerate pageId # es') s0)))
       \<and> distinct (map page_id (inflight (run (es @ Regenerate pageId # es') s0)))
       \<and> set (map page_id (inflight (run (es @ Regenerate pageId # es') s0)))
           = set (map page_id (filter (\<lambda>p. status p = Processing)
                                 (pages (run (es @ Regenerate pageId # es') s0))))"
proof -
  let ?s = "run es s0"
  let ?s' = "step (Regenerate pageId) ?s"
  have f: "feasible es s0" "enabled (Regenerate pageId) ?s" "feasible es' ?s'"
    using assms(2) by (simp_all add: feasible_append)
  have inv: "callInv ?s" by (rule callInv_run[OF callInv_initial[OF assms(1)] f(1)])
  have inv': "callInv ?s'" by (rule callInv_step[OF inv f(2)])
  have r: "run (es @ Regenerate pageId # es') s0 = run es' ?s'" by (simp add: run_append)
  have a: "pageId \<in> set (map page_id (pages ?s))"
  proof -
    from f(2) obtain p where p: "p \<in> set (pages ?s)" "page_id p = pageId"
      by (auto simp: list_ex_iff)
    then have "pageId \<in> page_id ` set (pages ?s)" by (intro image_eqI[of _ _ p]) simp_all
    then show ?thesis by (simp only: set_map)
  qed
  have b: "pageId \<notin> set (map page_id (inflight ?s))"
    by (rule callInv_no_call_when_offered[OF inv f(2)])
  then have c: "pageId \<notin> set (map page_id (inflight ?s'))" by simp
  have d: "neverStarted pageId es' ?s' \<longrightarrow> resetItem pageId (run es' ?s')"
    using resetItem_run[OF inv' resetItem_regenerate f(3)] by blast
  have "callInv (run es' ?s')" by (rule callInv_run[OF inv' f(3)])
  then have e: "distinct (map page_id (inflight (run es' ?s')))"
    "set (map page_id (inflight (run es' ?s')))
       = set (map page_id (filter (\<lambda>p. status p = Processing) (pages (run es' ?s'))))"
    by (simp_all add: callInv_def)
  have d': "neverStarted pageId es' ?s' \<longrightarrow>
      list_all (\<lambda>p. page_id p = pageId \<longrightarrow> status p = Pending \<and> translatedUrl p = None)
        (pages (run es' ?s'))"
    using d by (simp only: resetItem_def)
  show ?thesis unfolding r using a b c d' e by (intro conjI)
qed

text \<open>
  An instance: both items are started, the first completes and is reset through its button,
  then the call of the second fails and the clean-up runs; the first item is still Pending
  without a result, and no call for it was outstanding at the reset.
\<close>

theorem stale_resolution_never_applied_witness:
  "initial (examplePool [''a'', ''b''])
   \<and> feasible ([Tick 0, Resolved ''a'' ''u''] @ Regenerate ''a'' # [Rejected ''b'', Cleanup 1])
        (examplePool [''a'', ''b''])
   \<and> neverStarted ''a'' [Rejected ''b'', Cleanup 1]
        (step (Regenerate ''a'') (run [Tick 0, Resolved ''a'' ''u''] (examplePool [''a'', ''b''])))
   \<and> map status (pages (run [Tick 0, Resolved ''a'' ''u''] (examplePool [''a'', ''b''])))
       = [Completed, Processing]
   \<and> list_all (\<lambda>p. page_id p = ''a'' \<longrightarrow> status p = Pending \<and> translatedUrl p = None)
        (pages (run ([Tick 0, Resolved ''a'' ''u''] @ Regenerate ''a'' # [Rejected ''b'', Cleanup 1])
           (examplePool [''a'', ''b''])))
   \<and> ''a'' \<notin> set (map page_id (inflight (run [Tick 0, Resolved ''a'' ''u''] (examplePool [''a'', ''b'']))))"
proof -
  have i: "initial (examplePool [''a'', ''b''])" by code_simp
  have f: "feasible ([Tick 0, Resolved ''a'' ''u''] @ Regenerate ''a'' # [Rejected ''b'', Cleanup 1])
        (examplePool [''a'', ''b''])"
    by code_simp
  have n: "neverStarted ''a'' [Rejected ''b'', Cleanup 1]
        (step (Regenerate ''a'') (run [Tick 0, Resolved ''a'' ''u''] (examplePool [''a'', ''b''])))"
    by code_simp
  have s: "map status (pages (run [Tick 0, Resolved ''a'' ''u''] (examplePool [''a'', ''b''])))
       = [Completed, Processing]"
    by code_simp
  have t: "list_all (\<lambda>p. page_id p = ''a'' \<longrightarrow> status p = Pending \<and> translatedUrl p = None)
        (pages (run ([Tick 0, Resolved ''a'' ''u''] @ Regenerate ''a'' # [Rejected ''b'', Cleanup 1])
           (examplePool [''a'', ''b''])))"
    using stale_resolution_never_applied[OF i f, THEN conjunct2, THEN conjunct2, THEN conjunct2,
        THEN conjunct1, THEN mp, OF n] .
  have o: "''a'' \<notin> set (map page_id (inflight (run [Tick 0, Resolved ''a'' ''u''] (examplePool [''a'', ''b'']))))"
    using stale_resolution_never_applied[OF i f, THEN conjunct2, THEN conjunct1] .
  from i f n s t o show ?thesis by (intro conjI)
qed

end
